theory Spec2Isabelle
  imports Main
begin

section \<open>The friendship graph of CodigoChatGptBase.c\<close>

text \<open>
  The C program keeps an undirected graph in a fixed array of \<open>MAX_VERTICES\<close> vertices,
  each with a name and a singly linked adjacency list, together with a dense
  \<open>MAX_VERTICES \<times> MAX_VERTICES\<close> matrix that mirrors the lists.

  Every C \<open>int\<close> is an Isabelle \<open>int\<close> (all values stay below 26, nothing wraps).
  A \<open>char *\<close> name is a \<open>string option\<close>, \<open>NULL\<close> being \<open>None\<close>. A linked list of
  \<open>AdjNode\<close> is the list of its \<open>v\<close> fields, from \<open>head\<close> on. A C array is a list of the
  array's length. \<open>free\<close> has no effect on the values modelled.

  \<open>malloc\<close> may return \<open>NULL\<close>. \<open>strdup_local\<close> passes the \<open>NULL\<close> on, and \<open>add_vertex\<close>
  stores what it gets, so whether that allocation succeeds is a parameter of both.
  \<open>create_adj_node\<close> ends the process when its allocation fails; the model of
  \<open>add_edge_by_index\<close> describes the calls that return.
\<close>

definition MAX_VERTICES :: nat where
  "MAX_VERTICES = 20"

record Vertex =
  name :: "string option"
  head :: "int list"

record Graph =
  vertices :: "Vertex list"
  n :: int
  adjMatrix :: "int list list"

text \<open>Assignments to one field of one array element.\<close>

definition set_name :: "Vertex list \<Rightarrow> nat \<Rightarrow> string option \<Rightarrow> Vertex list" where
  "set_name vs i x = vs[i := (vs ! i)\<lparr>name := x\<rparr>]"

definition set_head :: "Vertex list \<Rightarrow> nat \<Rightarrow> int list \<Rightarrow> Vertex list" where
  "set_head vs i x = vs[i := (vs ! i)\<lparr>head := x\<rparr>]"

definition set_cell :: "int list list \<Rightarrow> nat \<Rightarrow> nat \<Rightarrow> int \<Rightarrow> int list list" where
  "set_cell a i j x = a[i := (a ! i)[j := x]]"

subsection \<open>init_graph\<close>

definition init_graph :: Graph where
  "init_graph =
     \<lparr>vertices = map (\<lambda>i. \<lparr>name = None, head = []\<rparr>) [0..<MAX_VERTICES],
      n = 0,
      adjMatrix = map (\<lambda>i. map (\<lambda>j. 0) [0..<MAX_VERTICES]) [0..<MAX_VERTICES]\<rparr>"

subsection \<open>find_vertex_index\<close>

text \<open>
  The loop of \<open>find_vertex_index\<close>, from index \<open>i\<close> on. The functions that take the
  \<open>Graph *\<close> return the graph they leave behind next to their result.
\<close>

function find_vertex_index_from :: "Graph \<Rightarrow> string \<Rightarrow> int \<Rightarrow> int" where
  "find_vertex_index_from g nm i =
     (if i < n g then
        (if name (vertices g ! nat i) = Some nm then i
         else find_vertex_index_from g nm (i + 1))
      else - 1)"
  by pat_completeness auto
termination
  by (relation "measure (\<lambda>(g, nm, i). nat (n g - i))") auto

declare find_vertex_index_from.simps [simp del]

definition find_vertex_index :: "Graph \<Rightarrow> string \<Rightarrow> Graph \<times> int" where
  "find_vertex_index g nm = (g, find_vertex_index_from g nm 0)"

subsection \<open>strdup_local, add_vertex\<close>

text \<open>
  \<open>mem\<close> tells whether \<open>malloc\<close> returns a block. The argument \<open>s\<close> is a string, never
  \<open>NULL\<close>. \<open>add_vertex\<close> does not look at the pointer it stores: with no memory it still
  counts the vertex and returns 0.
\<close>

definition strdup_local :: "bool \<Rightarrow> string \<Rightarrow> string option" where
  "strdup_local mem s = (if mem then Some s else None)"

definition add_vertex :: "bool \<Rightarrow> Graph \<Rightarrow> string \<Rightarrow> Graph \<times> int" where
  "add_vertex mem g nm =
     (if n g \<ge> int MAX_VERTICES then (g, - 1)
      else case find_vertex_index g nm of (g1, r) \<Rightarrow>
        if r \<noteq> - 1 then (g1, - 2)
        else
          let g2 = g1\<lparr>vertices := set_name (vertices g1) (nat (n g1)) (strdup_local mem nm)\<rparr>;
              g3 = g2\<lparr>vertices := set_head (vertices g2) (nat (n g2)) []\<rparr>
          in (g3\<lparr>n := n g3 + 1\<rparr>, 0))"

subsection \<open>add_edge_by_index, add_edge\<close>

definition add_edge_by_index :: "Graph \<Rightarrow> int \<Rightarrow> int \<Rightarrow> Graph \<times> int" where
  "add_edge_by_index g u v =
     (if u < 0 \<or> u \<ge> n g \<or> v < 0 \<or> v \<ge> n g then (g, - 1)
      else if u = v then (g, - 1)
      else if adjMatrix g ! nat u ! nat v \<noteq> 0 then (g, - 1)
      else
        let g1 = g\<lparr>vertices := set_head (vertices g) (nat u) (v # head (vertices g ! nat u))\<rparr>;
            g2 = g1\<lparr>vertices := set_head (vertices g1) (nat v) (u # head (vertices g1 ! nat v))\<rparr>;
            g3 = g2\<lparr>adjMatrix := set_cell (adjMatrix g2) (nat v) (nat u) 1\<rparr>;
            g4 = g3\<lparr>adjMatrix := set_cell (adjMatrix g3) (nat u) (nat v) 1\<rparr>
        in (g4, 0))"

definition add_edge :: "Graph \<Rightarrow> string \<Rightarrow> string \<Rightarrow> Graph \<times> int" where
  "add_edge g name1 name2 =
     (case find_vertex_index g name1 of (g1, u) \<Rightarrow>
      case find_vertex_index g1 name2 of (g2, v) \<Rightarrow>
        if u = - 1 \<or> v = - 1 then (g2, - 1)
        else add_edge_by_index g2 u v)"

subsection \<open>remove_occurrences_from_list, remove_edge_by_index, remove_edge\<close>

text \<open>The loop of \<open>remove_occurrences_from_list\<close> unlinks every node that holds the target.\<close>

fun remove_occurrences :: "int list \<Rightarrow> int \<Rightarrow> int list" where
  "remove_occurrences [] target = []"
| "remove_occurrences (x # xs) target =
     (if x = target then remove_occurrences xs target
      else x # remove_occurrences xs target)"

definition remove_occurrences_from_list :: "Vertex \<Rightarrow> int \<Rightarrow> Vertex" where
  "remove_occurrences_from_list vert target =
     vert\<lparr>head := remove_occurrences (head vert) target\<rparr>"

text \<open>The two loops of \<open>remove_edge_by_index\<close> unlink the first node found and stop.\<close>

fun unlink_first :: "int list \<Rightarrow> int \<Rightarrow> int list" where
  "unlink_first [] x = []"
| "unlink_first (y # ys) x = (if y = x then ys else y # unlink_first ys x)"

definition remove_edge_by_index :: "Graph \<Rightarrow> int \<Rightarrow> int \<Rightarrow> Graph \<times> int" where
  "remove_edge_by_index g u v =
     (if u < 0 \<or> v < 0 \<or> u \<ge> n g \<or> v \<ge> n g then (g, - 1)
      else if adjMatrix g ! nat u ! nat v = 0 then (g, - 1)
      else
        let g1 = g\<lparr>vertices := set_head (vertices g) (nat u)
                      (unlink_first (head (vertices g ! nat u)) v)\<rparr>;
            g2 = g1\<lparr>vertices := set_head (vertices g1) (nat v)
                      (unlink_first (head (vertices g1 ! nat v)) u)\<rparr>;
            g3 = g2\<lparr>adjMatrix := set_cell (adjMatrix g2) (nat v) (nat u) 0\<rparr>;
            g4 = g3\<lparr>adjMatrix := set_cell (adjMatrix g3) (nat u) (nat v) 0\<rparr>
        in (g4, 0))"

definition remove_edge :: "Graph \<Rightarrow> string \<Rightarrow> string \<Rightarrow> Graph \<times> int" where
  "remove_edge g name1 name2 =
     (case find_vertex_index g name1 of (g1, u) \<Rightarrow>
      case find_vertex_index g1 name2 of (g2, v) \<Rightarrow>
        if u = - 1 \<or> v = - 1 then (g2, - 1)
        else remove_edge_by_index g2 u v)"

subsection \<open>remove_vertex_by_index, remove_vertex\<close>

text \<open>
  Each \<open>for\<close> loop of \<open>remove_vertex_by_index\<close> is a \<open>fold\<close> over its index range; the
  bound \<open>g->n\<close> does not change before the last statement. \<open>m\<close> is \<open>g->n\<close> and \<open>t\<close> is
  \<open>target\<close>, both known to be non-negative after the first test.
\<close>

definition rv_drop_target :: "nat \<Rightarrow> nat \<Rightarrow> int \<Rightarrow> Vertex list \<Rightarrow> Vertex list" where
  "rv_drop_target m t target vs0 =
     fold (\<lambda>i vs. if i = t then vs
                   else vs[i := remove_occurrences_from_list (vs ! i) target]) [0..<m] vs0"

definition rv_release :: "nat \<Rightarrow> Vertex list \<Rightarrow> Vertex list" where
  "rv_release t vs0 = set_name (set_head vs0 t []) t None"

definition rv_shift_vertices :: "nat \<Rightarrow> nat \<Rightarrow> Vertex list \<Rightarrow> Vertex list" where
  "rv_shift_vertices m t vs0 =
     (let vs1 = fold (\<lambda>i vs. vs[i := vs ! (i + 1)]) [t..<m - 1] vs0;
          vs2 = set_head vs1 (m - 1) []
      in set_name vs2 (m - 1) None)"

definition rv_shift_rows :: "nat \<Rightarrow> nat \<Rightarrow> int list list \<Rightarrow> int list list" where
  "rv_shift_rows m t a0 =
     fold (\<lambda>i a. fold (\<lambda>j a. set_cell a i j (a ! (i + 1) ! j)) [0..<m] a) [t..<m - 1] a0"

definition rv_shift_cols :: "nat \<Rightarrow> nat \<Rightarrow> int list list \<Rightarrow> int list list" where
  "rv_shift_cols m t a0 =
     fold (\<lambda>j a. fold (\<lambda>i a. set_cell a i j (a ! i ! (j + 1))) [0..<m - 1] a) [t..<m - 1] a0"

definition rv_clear_last :: "nat \<Rightarrow> int list list \<Rightarrow> int list list" where
  "rv_clear_last m a0 =
     fold (\<lambda>i a. set_cell (set_cell a (m - 1) i 0) i (m - 1) 0) [0..<m] a0"

definition rv_renumber :: "nat \<Rightarrow> int \<Rightarrow> Vertex list \<Rightarrow> Vertex list" where
  "rv_renumber m target vs0 =
     fold (\<lambda>i vs. set_head vs i (map (\<lambda>v. if v > target then v - 1 else v) (head (vs ! i))))
       [0..<m - 1] vs0"

definition remove_vertex_by_index :: "Graph \<Rightarrow> int \<Rightarrow> Graph \<times> int" where
  "remove_vertex_by_index g target =
     (if target < 0 \<or> target \<ge> n g then (g, - 1)
      else
        let m = nat (n g); t = nat target;
            g1 = g\<lparr>vertices := rv_drop_target m t target (vertices g)\<rparr>;
            g2 = g1\<lparr>vertices := rv_release t (vertices g1)\<rparr>;
            g3 = g2\<lparr>vertices := rv_shift_vertices m t (vertices g2)\<rparr>;
            g4 = g3\<lparr>adjMatrix := rv_clear_last m (rv_shift_cols m t (rv_shift_rows m t (adjMatrix g3)))\<rparr>;
            g5 = g4\<lparr>vertices := rv_renumber m target (vertices g4)\<rparr>
        in (g5\<lparr>n := n g5 - 1\<rparr>, 0))"

definition remove_vertex :: "Graph \<Rightarrow> string \<Rightarrow> Graph \<times> int" where
  "remove_vertex g nm =
     (case find_vertex_index g nm of (g1, idx) \<Rightarrow>
        if idx = - 1 then (g1, - 1)
        else remove_vertex_by_index g1 idx)"

subsection \<open>The queue of the breadth-first search\<close>

text \<open>
  The queue is an array with two cursors. An access outside an array is undefined in C;
  the traversals below return \<open>None\<close> there, so that \<open>Some\<close> means that the run stayed
  inside every array. \<open>queue_create\<close> leaves the cells uninitialised; they are written
  before they are read, and hold 0 here. \<open>calloc\<close> and \<open>malloc\<close> are taken to return
  memory: \<open>bfs\<close>, \<open>dfs\<close> and \<open>queue_create\<close> use what they return untested, so that a null
  pointer would be dereferenced at the next line.
\<close>

record Queue =
  q_data :: "int list"
  q_head :: nat
  q_tail :: nat
  q_cap :: int

definition queue_create :: "int \<Rightarrow> Queue" where
  "queue_create c = \<lparr>q_data = replicate (nat c) 0, q_head = 0, q_tail = 0, q_cap = c\<rparr>"

definition queue_empty :: "Queue \<Rightarrow> bool" where
  "queue_empty q = (q_head q = q_tail q)"

definition queue_push :: "Queue \<Rightarrow> int \<Rightarrow> Queue option" where
  "queue_push q x =
     (if q_tail q < length (q_data q)
      then Some (q\<lparr>q_data := (q_data q)[q_tail q := x], q_tail := q_tail q + 1\<rparr>)
      else None)"

definition queue_pop :: "Queue \<Rightarrow> (int \<times> Queue) option" where
  "queue_pop q =
     (if q_head q < length (q_data q)
      then Some (q_data q ! q_head q, q\<lparr>q_head := q_head q + 1\<rparr>)
      else None)"

subsection \<open>The array that receives the order of visit\<close>

text \<open>
  \<open>bfs\<close> and \<open>dfs\<close> write the order of visit through an \<open>int *\<close> of the caller. It may
  point to an array of the caller's own, or into the graph that is being traversed: to
  row \<open>i\<close> of its matrix, as in the call \<open>bfs(&g, 0, g.adjMatrix[i], MAX_VERTICES)\<close>. A
  write then lands in the caller's array or in the graph. The traversals therefore take
  the graph and hand back the graph they leave.
\<close>

datatype out_array = Own "int list" | MatrixRow nat

definition write_out :: "Graph \<Rightarrow> out_array \<Rightarrow> nat \<Rightarrow> int \<Rightarrow> (Graph \<times> out_array) option" where
  "write_out g out k x =
     (case out of
        Own cells \<Rightarrow>
          if k < length cells then Some (g, Own (cells[k := x])) else None
      | MatrixRow i \<Rightarrow>
          if i < length (adjMatrix g) \<and> k < length (adjMatrix g ! i)
          then Some (g\<lparr>adjMatrix := set_cell (adjMatrix g) i k x\<rparr>, MatrixRow i)
          else None)"

subsection \<open>bfs\<close>

text \<open>The inner loop of \<open>bfs\<close>, over the adjacency list of the vertex just dequeued.\<close>

fun bfs_neighbours :: "int list \<Rightarrow> int list \<Rightarrow> Queue \<Rightarrow> (int list \<times> Queue) option" where
  "bfs_neighbours [] visited q = Some (visited, q)"
| "bfs_neighbours (v # rest) visited q =
     (if v < 0 \<or> nat v \<ge> length visited then None
      else if visited ! nat v = 0 then
        (case queue_push q v of
           None \<Rightarrow> None
         | Some q1 \<Rightarrow> bfs_neighbours rest (visited[nat v := 1]) q1)
      else bfs_neighbours rest visited q)"

lemma bfs_neighbours_frame:
  "bfs_neighbours vs visited q = Some (visited1, q1) \<Longrightarrow>
     q_head q1 = q_head q \<and> length (q_data q1) = length (q_data q)"
  by (induction vs visited q rule: bfs_neighbours.induct)
     (auto simp: queue_push_def split: if_splits option.splits)

text \<open>
  The outer loop of \<open>bfs\<close>. \<open>visited_order\<close> is the caller's pointer. Every turn moves
  the read cursor of the queue forward, which is what ends the loop.
\<close>

function bfs_loop ::
  "Graph \<Rightarrow> int list \<Rightarrow> Queue \<Rightarrow> nat \<Rightarrow> out_array \<Rightarrow> int \<Rightarrow> (Graph \<times> out_array \<times> nat) option"
  where
  "bfs_loop g visited q count visited_order max_out =
     (if queue_empty q then Some (g, visited_order, count)
      else case queue_pop q of
        None \<Rightarrow> None
      | Some (u, q1) \<Rightarrow>
          (case (if int count < max_out then write_out g visited_order count u
                 else Some (g, visited_order)) of
             None \<Rightarrow> None
           | Some (g1, out1) \<Rightarrow>
               if u < 0 \<or> nat u \<ge> length (vertices g1) then None
               else
                 (case bfs_neighbours (head (vertices g1 ! nat u)) visited q1 of
                    None \<Rightarrow> None
                  | Some (visited1, q2) \<Rightarrow> bfs_loop g1 visited1 q2 (count + 1) out1 max_out)))"
  by pat_completeness auto
termination
  by (relation "measure (\<lambda>(g, visited, q, count, visited_order, max_out).
                  length (q_data q) - q_head q)")
     (auto simp: queue_pop_def split: if_splits dest!: bfs_neighbours_frame)

declare bfs_loop.simps [simp del]

definition bfs :: "Graph \<Rightarrow> int \<Rightarrow> out_array \<Rightarrow> int \<Rightarrow> (Graph \<times> out_array \<times> int) option" where
  "bfs g start visited_order max_out =
     (if start < 0 \<or> start \<ge> n g then Some (g, visited_order, 0)
      else
        let visited = replicate (nat (n g)) 0;
            q = queue_create (n g + 5);
            visited1 = visited[nat start := 1]
        in case queue_push q start of
             None \<Rightarrow> None
           | Some q1 \<Rightarrow>
               (case bfs_loop g visited1 q1 0 visited_order max_out of
                  None \<Rightarrow> None
                | Some (g1, out, count) \<Rightarrow> Some (g1, out, int count)))"

subsection \<open>dfs_util, dfs\<close>

text \<open>
  What \<open>dfs_util\<close> updates through its pointers: the \<open>visited\<close> array, the caller's
  \<open>order\<close> pointer and \<open>*pos\<close>. \<open>dfs_util\<close> is the function, \<open>dfs_neighbours\<close> its loop over
  the adjacency list, which calls \<open>dfs_util\<close> again.
\<close>

record dfs_state =
  d_visited :: "int list"
  d_order :: out_array
  d_pos :: nat

function dfs_util :: "Graph \<Rightarrow> int \<Rightarrow> dfs_state \<Rightarrow> (Graph \<times> dfs_state) option"
  and dfs_neighbours :: "Graph \<Rightarrow> int list \<Rightarrow> dfs_state \<Rightarrow> (Graph \<times> dfs_state) option" where
  "dfs_util g u s =
     (if u < 0 \<or> nat u \<ge> length (d_visited s) then None
      else case write_out g (d_order s) (d_pos s) u of
        None \<Rightarrow> None
      | Some (g1, out1) \<Rightarrow>
          if nat u \<ge> length (vertices g1) then None
          else dfs_neighbours g1 (head (vertices g1 ! nat u))
                 (s\<lparr>d_visited := (d_visited s)[nat u := 1],
                    d_order := out1,
                    d_pos := d_pos s + 1\<rparr>))"
| "dfs_neighbours g [] s = Some (g, s)"
| "dfs_neighbours g (v # rest) s =
     (if v < 0 \<or> nat v \<ge> length (d_visited s) then None
      else if d_visited s ! nat v = 0 then
        (case dfs_util g v s of
           None \<Rightarrow> None
         | Some (g1, s1) \<Rightarrow> dfs_neighbours g1 rest s1)
      else dfs_neighbours g rest s)"
  by pat_completeness auto

text \<open>
  The recursion ends because a call of \<open>dfs_util\<close> on an unvisited vertex marks it, and no
  call ever clears a mark: the set of unmarked indices shrinks.
\<close>

definition unvisited :: "int list \<Rightarrow> nat set" where
  "unvisited visited = {i. i < length visited \<and> visited ! i = 0}"

lemma finite_unvisited: "finite (unvisited visited)"
  by (simp add: unvisited_def)

lemma unvisited_mark: "unvisited (visited[k := 1]) = unvisited visited - {k}"
  by (cases "k < length visited") (auto simp: unvisited_def nth_list_update split: if_splits)

lemma card_unvisited_mark:
  "k < length visited \<Longrightarrow> visited ! k = 0 \<Longrightarrow>
     card (unvisited (visited[k := 1])) < card (unvisited visited)"
  unfolding unvisited_mark
  by (rule card_Diff1_less) (auto simp: unvisited_def)

lemma card_unvisited_mono:
  "unvisited a \<subseteq> unvisited b \<Longrightarrow> card (unvisited a) \<le> card (unvisited b)"
  by (rule card_mono) (auto simp: finite_unvisited)

lemma dfs_partial_mono:
  "dfs_util_dfs_neighbours_dom (Inl (g, u, s)) \<Longrightarrow> dfs_util g u s = Some (g', s') \<Longrightarrow>
     unvisited (d_visited s') \<subseteq> unvisited (d_visited s) - {nat u}"
  "dfs_util_dfs_neighbours_dom (Inr (g, vs, s)) \<Longrightarrow> dfs_neighbours g vs s = Some (g', s') \<Longrightarrow>
     unvisited (d_visited s') \<subseteq> unvisited (d_visited s)"
proof (induction g u s and g vs s arbitrary: g' s' and g' s'
       rule: dfs_util_dfs_neighbours.pinduct)
  case (1 g u s)
  from "1.prems" "1.hyps" obtain g1 out1
    where w: "write_out g (d_order s) (d_pos s) u = Some (g1, out1)"
      and guard: "\<not> (u < 0 \<or> length (d_visited s) \<le> nat u)" "\<not> length (vertices g1) \<le> nat u"
      and rest: "dfs_neighbours g1 (head (vertices g1 ! nat u))
                   (s\<lparr>d_visited := (d_visited s)[nat u := 1], d_order := out1,
                      d_pos := d_pos s + 1\<rparr>) = Some (g', s')"
    by (auto simp: dfs_util.psimps split: if_splits option.splits)
  from "1.IH"[OF guard(1) w refl guard(2) rest] show ?case
    by (simp add: unvisited_mark)
next
  case (2 g s)
  then show ?case by (simp add: dfs_neighbours.psimps)
next
  case (3 g v rest s)
  from "3.prems" "3.hyps" have guard: "\<not> (v < 0 \<or> length (d_visited s) \<le> nat v)"
    by (auto simp: dfs_neighbours.psimps split: if_splits)
  show ?case
  proof (cases "d_visited s ! nat v = 0")
    case True
    with "3.prems" "3.hyps" guard obtain g1 s1
      where call: "dfs_util g v s = Some (g1, s1)"
        and rest: "dfs_neighbours g1 rest s1 = Some (g', s')"
      by (auto simp: dfs_neighbours.psimps split: option.splits)
    from "3.IH"(1)[OF guard True call] "3.IH"(2)[OF guard True call refl rest]
    show ?thesis by blast
  next
    case False
    with "3.prems" "3.hyps" guard have "dfs_neighbours g rest s = Some (g', s')"
      by (simp add: dfs_neighbours.psimps)
    from "3.IH"(3)[OF guard False this] show ?thesis .
  qed
qed

termination dfs_util
proof (relation "inv_image (less_than <*lex*> less_than <*lex*> less_than)
         (\<lambda>x. case x of
             Inl (g, u, s) \<Rightarrow> (card (unvisited ((d_visited s)[nat u := 1])), 1::nat, 0::nat)
           | Inr (g, vs, s) \<Rightarrow> (card (unvisited (d_visited s)), 0, length vs))", goal_cases)
  case 1
  then show ?case by (intro wf_inv_image wf_lex_prod wf_less_than)
next
  case (2 g u s x2 g1 out1)
  then show ?case by simp
next
  case (3 g v rest s)
  then show ?case by (simp add: card_unvisited_mark)
next
  case (4 g v rest s x2 g1 s1)
  from dfs_partial_mono(1)[of g v s g1 s1] 4
  have "unvisited (d_visited s1) \<subseteq> unvisited (d_visited s)" by blast
  from card_unvisited_mono[OF this] show ?case by auto
next
  case (5 g v rest s)
  then show ?case by simp
qed

declare dfs_util.simps [simp del]

text \<open>\<open>dfs\<close> takes \<open>max_out\<close> and never reads it.\<close>

definition dfs :: "Graph \<Rightarrow> int \<Rightarrow> out_array \<Rightarrow> int \<Rightarrow> (Graph \<times> out_array \<times> int) option" where
  "dfs g start order max_out =
     (if start < 0 \<or> start \<ge> n g then Some (g, order, 0)
      else
        let visited = replicate (nat (n g)) 0
        in case dfs_util g start \<lparr>d_visited = visited, d_order = order, d_pos = 0\<rparr> of
             None \<Rightarrow> None
           | Some (g1, s) \<Rightarrow> Some (g1, d_order s, int (d_pos s)))"

subsection \<open>The edges, as the program lists them\<close>

text \<open>
  \<open>display_incidence_matrix\<close> and \<open>generate_dot\<close> both collect the edges as the pairs
  \<open>u < v\<close> whose cell of the matrix is set, by rows.
\<close>

definition edge_pairs :: "Graph \<Rightarrow> (nat \<times> nat) list" where
  "edge_pairs g =
     concat (map (\<lambda>u. concat (map (\<lambda>v. if adjMatrix g ! u ! v \<noteq> 0 then [(u, v)] else [])
                                 [u + 1..<nat (n g)]))
                 [0..<nat (n g)])"

section \<open>Sequences of operations\<close>

text \<open>
  The mutating operations, by name as the menu calls them and by index, and the graph
  that a sequence of them builds from the empty graph. A call that reports an error
  still counts as a step. \<open>AddVertex\<close> carries whether the copy of the name is allocated.
\<close>

datatype operation =
    AddVertex bool string
  | AddEdge string string
  | AddEdgeByIndex int int
  | RemoveEdge string string
  | RemoveEdgeByIndex int int
  | RemoveVertex string
  | RemoveVertexByIndex int

fun apply_operation :: "Graph \<Rightarrow> operation \<Rightarrow> Graph" where
  "apply_operation g (AddVertex mem nm) = fst (add_vertex mem g nm)"
| "apply_operation g (AddEdge a b) = fst (add_edge g a b)"
| "apply_operation g (AddEdgeByIndex u v) = fst (add_edge_by_index g u v)"
| "apply_operation g (RemoveEdge a b) = fst (remove_edge g a b)"
| "apply_operation g (RemoveEdgeByIndex u v) = fst (remove_edge_by_index g u v)"
| "apply_operation g (RemoveVertex nm) = fst (remove_vertex g nm)"
| "apply_operation g (RemoveVertexByIndex t) = fst (remove_vertex_by_index g t)"

definition run :: "operation list \<Rightarrow> Graph" where
  "run ops = foldl apply_operation init_graph ops"

section \<open>Graphs used as examples\<close>

definition abcd_graph :: Graph where
  "abcd_graph = run [AddVertex True ''A'', AddVertex True ''B'', AddVertex True ''C'', AddVertex True ''D'',
                     AddEdge ''A'' ''C'', AddEdge ''B'' ''D'']"

definition friends_graph :: Graph where
  "friends_graph = run [AddVertex True ''Alice'', AddVertex True ''Bob'', AddVertex True ''Carol'',
                        AddEdge ''Alice'' ''Bob'', AddEdge ''Alice'' ''Carol'']"

definition full_graph :: Graph where
  "full_graph = run (map (\<lambda>k. AddVertex True (replicate (Suc k) CHR ''a'')) [0..<20])"

definition compacted_ops :: "operation list" where
  "compacted_ops = [AddVertex True ''A'', AddVertex True ''B'', AddVertex True ''C'', AddVertex True ''D'',
                    AddEdge ''A'' ''C'', AddEdge ''B'' ''D'', AddEdge ''C'' ''D'',
                    RemoveEdge ''D'' ''C'', RemoveVertex ''B'']"

definition triangle_graph :: Graph where
  "triangle_graph = run [AddVertex True ''A'', AddVertex True ''B'', AddVertex True ''C'',
                         AddVertex True ''D'',
                         AddEdge ''A'' ''B'', AddEdge ''B'' ''C'', AddEdge ''C'' ''A'']"

section \<open>Well-formed graphs\<close>

text \<open>
  The arrays have the sizes their C types give them, and the count lies between 0 and
  \<open>MAX_VERTICES\<close>.
\<close>

definition well_formed :: "Graph \<Rightarrow> bool" where
  "well_formed g \<longleftrightarrow>
     length (vertices g) = MAX_VERTICES \<and>
     length (adjMatrix g) = MAX_VERTICES \<and>
     list_all (\<lambda>row. length row = MAX_VERTICES) (adjMatrix g) \<and>
     0 \<le> n g \<and> n g \<le> int MAX_VERTICES"

section \<open>The invariant of the representation\<close>

text \<open>The matrix is a square of side \<open>MAX_VERTICES\<close>.\<close>

definition square :: "int list list \<Rightarrow> bool" where
  "square a \<longleftrightarrow> length a = MAX_VERTICES \<and> (\<forall>r<MAX_VERTICES. length (a ! r) = MAX_VERTICES)"

text \<open>
  Below the count, every adjacency list is free of repetitions, and each of its entries
  is a valid position other than the list's own, whose list holds the way back.
\<close>

definition lists_ok :: "Graph \<Rightarrow> bool" where
  "lists_ok g \<longleftrightarrow>
     (\<forall>i<nat (n g). distinct (head (vertices g ! i)) \<and>
        (\<forall>v\<in>set (head (vertices g ! i)).
            0 \<le> v \<and> v < n g \<and> v \<noteq> int i \<and> int i \<in> set (head (vertices g ! nat v))))"

text \<open>Below the count, a cell of the matrix is 1 when the lists hold the edge and 0 when not.\<close>

definition mirror_ok :: "Graph \<Rightarrow> bool" where
  "mirror_ok g \<longleftrightarrow>
     (\<forall>i<nat (n g). \<forall>j<nat (n g).
        adjMatrix g ! i ! j = (if int j \<in> set (head (vertices g ! i)) then 1 else 0))"

text \<open>The cells at or beyond the count are 0, which is what \<open>add_vertex\<close> relies on.\<close>

definition outside_ok :: "Graph \<Rightarrow> bool" where
  "outside_ok g \<longleftrightarrow>
     (\<forall>i<MAX_VERTICES. \<forall>j<MAX_VERTICES.
        nat (n g) \<le> i \<or> nat (n g) \<le> j \<longrightarrow> adjMatrix g ! i ! j = 0)"

definition graph_inv :: "Graph \<Rightarrow> bool" where
  "graph_inv g \<longleftrightarrow> well_formed g \<and> lists_ok g \<and> mirror_ok g \<and> outside_ok g"

text \<open>
  After \<open>remove_vertex_by_index\<close>, position \<open>i\<close> holds the vertex that was at
  \<open>old_position t i\<close>, and an entry \<open>v\<close> of a list has become \<open>renumbered target v\<close>.
\<close>

definition old_position :: "nat \<Rightarrow> nat \<Rightarrow> nat" where
  "old_position t i = (if i < t then i else i + 1)"

definition renumbered :: "int \<Rightarrow> int \<Rightarrow> int" where
  "renumbered target v = (if v > target then v - 1 else v)"

section \<open>Reachability, and what the traversals maintain\<close>

text \<open>Every entry of every adjacency list below the count is a valid position.\<close>

definition valid_entries :: "Graph \<Rightarrow> bool" where
  "valid_entries g \<longleftrightarrow>
     (\<forall>i\<in>set [0..<nat (n g)]. \<forall>v\<in>set (head (vertices g ! i)). 0 \<le> v \<and> v < n g)"

text \<open>
  The edges as the adjacency lists give them, and the positions that can be reached
  from \<open>start\<close> along them.
\<close>

definition edges :: "Graph \<Rightarrow> (int \<times> int) set" where
  "edges g = {(u, v). 0 \<le> u \<and> u < n g \<and> v \<in> set (head (vertices g ! nat u))}"

definition reachable_from :: "Graph \<Rightarrow> int \<Rightarrow> int set" where
  "reachable_from g start = (edges g)\<^sup>* `` {start}"

text \<open>
  The positions marked in a \<open>visited\<close> array, and everything pushed on the queue so far:
  the cells of the queue below its write cursor, those already popped included.
\<close>

definition marked :: "Graph \<Rightarrow> int list \<Rightarrow> int set" where
  "marked g visited = {v. 0 \<le> v \<and> v < n g \<and> visited ! nat v \<noteq> 0}"

definition queued :: "Queue \<Rightarrow> int list" where
  "queued q = take (q_tail q) (q_data q)"

text \<open>
  What holds at the head of the outer loop of \<open>bfs\<close>: the queue has room for every
  position, the positions pushed so far are the marked ones, without repetition and with
  \<open>start\<close> first, all of them can be reached from \<open>start\<close>, and every neighbour of a
  position already popped has been pushed.
\<close>

definition bfs_inv :: "Graph \<Rightarrow> int \<Rightarrow> int list \<Rightarrow> Queue \<Rightarrow> bool" where
  "bfs_inv g start visited q \<longleftrightarrow>
     length visited = nat (n g) \<and> nat (n g) \<le> length (q_data q) \<and>
     q_head q \<le> q_tail q \<and> q_tail q \<le> length (q_data q) \<and>
     distinct (queued q) \<and> set (queued q) = marked g visited \<and>
     queued q \<noteq> [] \<and> hd (queued q) = start \<and>
     set (queued q) \<subseteq> reachable_from g start \<and>
     (\<forall>u\<in>set (take (q_head q) (queued q)). \<forall>v. (u, v) \<in> edges g \<longrightarrow> v \<in> set (queued q))"

text \<open>
  What \<open>dfs_util\<close> has written so far into an array of the caller's own, and what holds
  between its calls: the array has room for every position, and the positions written
  are the marked ones, without repetition.
\<close>

definition recorded :: "dfs_state \<Rightarrow> int list" where
  "recorded s = (case d_order s of Own cells \<Rightarrow> take (d_pos s) cells | MatrixRow i \<Rightarrow> [])"

definition dfs_ok :: "Graph \<Rightarrow> dfs_state \<Rightarrow> bool" where
  "dfs_ok g s \<longleftrightarrow>
     length (d_visited s) = nat (n g) \<and>
     (\<exists>cells. d_order s = Own cells \<and> nat (n g) \<le> length cells \<and> d_pos s \<le> length cells) \<and>
     distinct (recorded s) \<and> set (recorded s) = marked g (d_visited s)"

section \<open>The scenarios of the specification\<close>

text \<open>
  C1. From the empty graph, add A, B, C, D (positions 0 to 3) and the edges A-C and B-D.
  Removing B, by its position 1 or by its name, succeeds and leaves three vertices
  A, C, D at positions 0, 1, 2; the adjacency lists are [1], [0] and [] (D has lost its
  only neighbour), the matrix has the single edge between 0 and 1, and the edges listed
  are exactly that one.
\<close>

theorem compaction_abcd:
  "snd (remove_vertex_by_index abcd_graph 1) = 0 \<and>
   remove_vertex abcd_graph ''B'' = remove_vertex_by_index abcd_graph 1 \<and>
   n (fst (remove_vertex_by_index abcd_graph 1)) = 3 \<and>
   map name (take 3 (vertices (fst (remove_vertex_by_index abcd_graph 1))))
     = [Some ''A'', Some ''C'', Some ''D''] \<and>
   map head (take 3 (vertices (fst (remove_vertex_by_index abcd_graph 1))))
     = [[1], [0], []] \<and>
   map (take 3) (take 3 (adjMatrix (fst (remove_vertex_by_index abcd_graph 1))))
     = [[0, 1, 0], [1, 0, 0], [0, 0, 0]] \<and>
   edge_pairs (fst (remove_vertex_by_index abcd_graph 1)) = [(0, 1)]"
  by code_simp

text \<open>
  C7. From the empty graph, add Alice, Bob, Carol (positions 0, 1, 2) and the edges
  Alice-Bob, then Alice-Carol. The breadth-first search from Alice, into an array of
  \<open>MAX_VERTICES\<close> cells of the caller's own as \<open>main\<close> passes it, counts 3 vertices and writes 0, 2, 1 (the edge
  added last comes first in Alice's list). Removing Alice then succeeds and leaves Bob
  and Carol at positions 0 and 1, with empty adjacency lists and no edge.
\<close>

theorem friends_scenario:
  "map name (take 3 (vertices friends_graph)) = [Some ''Alice'', Some ''Bob'', Some ''Carol''] \<and>
   bfs friends_graph 0 (Own (replicate 20 0)) 20
     = Some (friends_graph, Own ([0, 2, 1] @ replicate 17 0), 3) \<and>
   snd (remove_vertex friends_graph ''Alice'') = 0 \<and>
   n (fst (remove_vertex friends_graph ''Alice'')) = 2 \<and>
   map name (take 2 (vertices (fst (remove_vertex friends_graph ''Alice''))))
     = [Some ''Bob'', Some ''Carol''] \<and>
   map head (take 2 (vertices (fst (remove_vertex friends_graph ''Alice'')))) = [[], []] \<and>
   map (take 2) (take 2 (adjMatrix (fst (remove_vertex friends_graph ''Alice''))))
     = [[0, 0], [0, 0]] \<and>
   edge_pairs (fst (remove_vertex friends_graph ''Alice'')) = []"
  by code_simp

section \<open>Looking a name up\<close>

lemma find_from_unfold:
  "i < n g \<Longrightarrow> find_vertex_index_from g nm i =
     (if name (vertices g ! nat i) = Some nm then i else find_vertex_index_from g nm (i + 1))"
  "\<not> i < n g \<Longrightarrow> find_vertex_index_from g nm i = - 1"
  by (subst find_vertex_index_from.simps, simp)+

lemma find_from_absent:
  "find_vertex_index_from g nm i = - 1 \<Longrightarrow> 0 \<le> i \<Longrightarrow> i \<le> k \<Longrightarrow> k < n g \<Longrightarrow>
     name (vertices g ! nat k) \<noteq> Some nm"
proof (induction g nm i rule: find_vertex_index_from.induct)
  case (1 g nm i)
  from "1.prems" have lt: "i < n g" by simp
  from "1.prems"(1) "1.prems"(2) have here: "name (vertices g ! nat i) \<noteq> Some nm"
    and rest: "find_vertex_index_from g nm (i + 1) = - 1"
    by (auto simp: find_from_unfold(1)[OF lt] split: if_splits)
  show ?case
  proof (cases "k = i")
    case True
    with here show ?thesis by simp
  next
    case False
    with "1.IH"[OF lt here rest] "1.prems" show ?thesis by simp
  qed
qed

lemma find_from_first:
  "0 \<le> i \<Longrightarrow> i \<le> r \<Longrightarrow> r < n g \<Longrightarrow> name (vertices g ! nat r) = Some nm \<Longrightarrow>
     (\<forall>k. i \<le> k \<and> k < r \<longrightarrow> name (vertices g ! nat k) \<noteq> Some nm) \<Longrightarrow>
     find_vertex_index_from g nm i = r"
proof (induction g nm i rule: find_vertex_index_from.induct)
  case (1 g nm i)
  show ?case
  proof (cases "i = r")
    case True
    with "1.prems" show ?thesis
      by (simp add: find_from_unfold(1))
  next
    case False
    with "1.prems" have a: "i < n g" "name (vertices g ! nat i) \<noteq> Some nm" "i + 1 \<le> r"
      by auto
    with "1.IH" "1.prems" have "find_vertex_index_from g nm (i + 1) = r" by auto
    with a show ?thesis
      by (simp add: find_from_unfold(1))
  qed
qed

lemma find_from_range:
  "0 \<le> i \<Longrightarrow> find_vertex_index_from g nm i \<noteq> - 1 \<Longrightarrow>
     i \<le> find_vertex_index_from g nm i \<and> find_vertex_index_from g nm i < n g \<and>
     name (vertices g ! nat (find_vertex_index_from g nm i)) = Some nm"
proof (induction g nm i rule: find_vertex_index_from.induct)
  case (1 g nm i)
  from "1.prems"(2) have lt: "i < n g"
    using find_from_unfold(2)[of i g nm] by blast
  show ?case
  proof (cases "name (vertices g ! nat i) = Some nm")
    case True
    then have "find_vertex_index_from g nm i = i"
      by (simp add: find_from_unfold(1)[OF lt])
    with lt True show ?thesis by simp
  next
    case False
    then have e: "find_vertex_index_from g nm i = find_vertex_index_from g nm (i + 1)"
      by (simp add: find_from_unfold(1)[OF lt])
    from "1.prems" have "0 \<le> i + 1" by simp
    from "1.IH"[OF lt False this] "1.prems"(2) show ?thesis
      unfolding e by simp
  qed
qed

text \<open>
  C6, as amended. \<open>add_vertex\<close> tests the capacity before it looks the name up. When a
  vertex at a valid position already has the name, the call leaves the graph as it was
  and returns -2 (the name exists) if the graph has room, and -1 (the graph is full)
  if the count has reached \<open>MAX_VERTICES\<close>.
\<close>

theorem add_vertex_existing_name:
  assumes "0 \<le> i" and "i < n g" and "name (vertices g ! nat i) = Some nm"
  shows "add_vertex mem g nm = (g, if n g \<ge> int MAX_VERTICES then - 1 else - 2)"
proof -
  from assms find_from_absent[of g nm 0 i]
  have "find_vertex_index_from g nm 0 \<noteq> - 1" by auto
  then show ?thesis
    by (simp add: add_vertex_def find_vertex_index_def)
qed

text \<open>
  The claim C6 as stated fails on the full graph: with twenty vertices, adding the name of
  the vertex at position 0 again returns -1, the code for a full graph, not -2.
\<close>

theorem add_vertex_full_counterexample:
  "n full_graph = 20 \<and> name (vertices full_graph ! 0) = Some ''a'' \<and>
   add_vertex True full_graph ''a'' = (full_graph, - 1)"
  by code_simp

theorem add_vertex_existing_name_witness:
  "n abcd_graph = 4 \<and> name (vertices abcd_graph ! 2) = Some ''C'' \<and>
   add_vertex True abcd_graph ''C'' = (abcd_graph, - 2)"
proof -
  have a: "n abcd_graph = 4" "name (vertices abcd_graph ! nat 2) = Some ''C''"
    by code_simp+
  from add_vertex_existing_name[of 2 abcd_graph "''C''" True] a show ?thesis
    by (simp add: MAX_VERTICES_def)
qed


section \<open>Adding a vertex, and the calls that fail\<close>

lemma vertex_overwrite [simp]:
  "(x :: Vertex)\<lparr>name := a, head := b\<rparr> = \<lparr>name = a, head = b\<rparr>"
  by (cases x) simp

lemma add_vertex_success:
  assumes "add_vertex mem g nm = (g', 0)"
  shows "n g < int MAX_VERTICES" and "find_vertex_index_from g nm 0 = - 1"
    and "nat (n g) < length (vertices g) \<Longrightarrow>
         g' = g\<lparr>vertices := (vertices g)[nat (n g) := \<lparr>name = strdup_local mem nm, head = []\<rparr>],
                n := n g + 1\<rparr>"
  using assms
  by (auto simp: add_vertex_def find_vertex_index_def set_name_def set_head_def Let_def
           split: if_splits)

text \<open>
  When the copy of the name is allocated, a successful \<open>add_vertex\<close> on a well-formed
  graph is followed by a lookup that returns the position of the new vertex, the new
  count minus one.
\<close>

lemma find_after_add_vertex_allocated:
  assumes wf: "well_formed g" and ok: "add_vertex True g nm = (g', 0)"
  shows "find_vertex_index g' nm = (g', n g' - 1)"
proof -
  note s = add_vertex_success[OF ok]
  from wf have len: "length (vertices g) = MAX_VERTICES" and n0: "0 \<le> n g"
    by (simp_all add: well_formed_def)
  from s(1) n0 len have in_range: "nat (n g) < length (vertices g)" by simp
  have n': "n g' = n g + 1" and vs': "vertices g' = (vertices g)[nat (n g) := \<lparr>name = Some nm, head = []\<rparr>]"
    by (simp_all add: s(3)[OF in_range] strdup_local_def)
  have new: "name (vertices g' ! nat (n g)) = Some nm"
    using in_range by (simp add: vs')
  have old: "name (vertices g' ! nat k) \<noteq> Some nm" if "0 \<le> k" "k < n g" for k
  proof -
    from that have "nat k \<noteq> nat (n g)" by simp
    then have "vertices g' ! nat k = vertices g ! nat k" by (simp add: vs')
    with find_from_absent[OF s(2) _ that(1) that(2)] show ?thesis by simp
  qed
  have "find_vertex_index_from g' nm 0 = n g"
    by (rule find_from_first) (use n0 n' new old in auto)
  then show ?thesis by (simp add: find_vertex_index_def n')
qed

text \<open>
  C10 fails in the program when the copy of the name cannot be allocated. On the empty
  graph, \<open>add_vertex\<close> with the name A then returns 0 and the count becomes 1, but the
  vertex at position 0 has the name \<open>NULL\<close>, and looking A up in the resulting graph
  returns -1 where the claim says 0, the new count minus one.
\<close>

theorem add_vertex_without_memory:
  "snd (add_vertex False init_graph ''A'') = 0 \<and>
   n (fst (add_vertex False init_graph ''A'')) = 1 \<and>
   name (vertices (fst (add_vertex False init_graph ''A'')) ! 0) = None \<and>
   snd (find_vertex_index (fst (add_vertex False init_graph ''A'')) ''A'') = - 1"
  by code_simp

text \<open>
  C8. Whenever \<open>add_vertex\<close>, \<open>add_edge\<close>, \<open>remove_edge\<close> or \<open>remove_vertex\<close>, by name or by
  index, returns a non-zero code, the graph it leaves is the graph it was given. And a
  successful \<open>add_edge_by_index\<close> on a well-formed graph puts each endpoint at the front
  of the other's adjacency list: never one side only.
\<close>

theorem failed_mutation_leaves_graph:
  "(snd (add_vertex mem g nm) \<noteq> 0 \<longrightarrow> fst (add_vertex mem g nm) = g) \<and>
   (snd (add_edge_by_index g u v) \<noteq> 0 \<longrightarrow> fst (add_edge_by_index g u v) = g) \<and>
   (snd (add_edge g a b) \<noteq> 0 \<longrightarrow> fst (add_edge g a b) = g) \<and>
   (snd (remove_edge_by_index g u v) \<noteq> 0 \<longrightarrow> fst (remove_edge_by_index g u v) = g) \<and>
   (snd (remove_edge g a b) \<noteq> 0 \<longrightarrow> fst (remove_edge g a b) = g) \<and>
   (snd (remove_vertex_by_index g t) \<noteq> 0 \<longrightarrow> fst (remove_vertex_by_index g t) = g) \<and>
   (snd (remove_vertex g nm) \<noteq> 0 \<longrightarrow> fst (remove_vertex g nm) = g) \<and>
   (well_formed g \<and> snd (add_edge_by_index g u v) = 0 \<longrightarrow>
      head (vertices (fst (add_edge_by_index g u v)) ! nat u) = v # head (vertices g ! nat u) \<and>
      head (vertices (fst (add_edge_by_index g u v)) ! nat v) = u # head (vertices g ! nat v))"
proof -
  have by_index:
    "snd (add_edge_by_index g x y) \<noteq> 0 \<longrightarrow> fst (add_edge_by_index g x y) = g"
    "snd (remove_edge_by_index g x y) \<noteq> 0 \<longrightarrow> fst (remove_edge_by_index g x y) = g"
    "snd (remove_vertex_by_index g x) \<noteq> 0 \<longrightarrow> fst (remove_vertex_by_index g x) = g" for x y
    by (simp_all add: add_edge_by_index_def remove_edge_by_index_def
          remove_vertex_by_index_def Let_def)
  have v: "snd (add_vertex mem g nm) \<noteq> 0 \<longrightarrow> fst (add_vertex mem g nm) = g"
    by (simp add: add_vertex_def find_vertex_index_def Let_def)
  have by_name:
    "snd (add_edge g a b) \<noteq> 0 \<longrightarrow> fst (add_edge g a b) = g"
    "snd (remove_edge g a b) \<noteq> 0 \<longrightarrow> fst (remove_edge g a b) = g"
    "snd (remove_vertex g nm) \<noteq> 0 \<longrightarrow> fst (remove_vertex g nm) = g"
    using by_index
    by (simp_all add: add_edge_def remove_edge_def remove_vertex_def find_vertex_index_def)
  have both: "head (vertices (fst (add_edge_by_index g u v)) ! nat u) = v # head (vertices g ! nat u) \<and>
      head (vertices (fst (add_edge_by_index g u v)) ! nat v) = u # head (vertices g ! nat v)"
    if wf: "well_formed g" and ok: "snd (add_edge_by_index g u v) = 0"
  proof -
    from ok have r: "0 \<le> u" "u < n g" "0 \<le> v" "v < n g" "u \<noteq> v"
      by (auto simp: add_edge_by_index_def split: if_splits)
    with wf have l: "nat u < length (vertices g)" "nat v < length (vertices g)" "nat u \<noteq> nat v"
      by (auto simp: well_formed_def)
    from ok l show ?thesis
      by (auto simp: add_edge_by_index_def set_head_def Let_def split: if_splits)
  qed
  from by_index v by_name both show ?thesis by blast
qed

theorem failed_mutation_leaves_graph_witness:
  "snd (add_vertex True abcd_graph ''A'') \<noteq> 0 \<and> fst (add_vertex True abcd_graph ''A'') = abcd_graph \<and>
   snd (add_edge_by_index abcd_graph 0 2) \<noteq> 0 \<and> fst (add_edge_by_index abcd_graph 0 2) = abcd_graph \<and>
   snd (add_edge abcd_graph ''A'' ''A'') \<noteq> 0 \<and> fst (add_edge abcd_graph ''A'' ''A'') = abcd_graph \<and>
   snd (remove_edge_by_index abcd_graph 0 1) \<noteq> 0 \<and> fst (remove_edge_by_index abcd_graph 0 1) = abcd_graph \<and>
   snd (remove_edge abcd_graph ''A'' ''Z'') \<noteq> 0 \<and> fst (remove_edge abcd_graph ''A'' ''Z'') = abcd_graph \<and>
   snd (remove_vertex_by_index abcd_graph 4) \<noteq> 0 \<and> fst (remove_vertex_by_index abcd_graph 4) = abcd_graph \<and>
   snd (remove_vertex abcd_graph ''Z'') \<noteq> 0 \<and> fst (remove_vertex abcd_graph ''Z'') = abcd_graph \<and>
   well_formed abcd_graph \<and> snd (add_edge_by_index abcd_graph 0 1) = 0 \<and>
   head (vertices (fst (add_edge_by_index abcd_graph 0 1)) ! 0) = [1, 2] \<and>
   head (vertices (fst (add_edge_by_index abcd_graph 0 1)) ! 1) = [0, 3]"
proof -
  have e: "snd (add_vertex True abcd_graph ''A'') \<noteq> 0" "snd (add_edge_by_index abcd_graph 0 2) \<noteq> 0"
    "snd (add_edge abcd_graph ''A'' ''A'') \<noteq> 0" "snd (remove_edge_by_index abcd_graph 0 1) \<noteq> 0"
    "snd (remove_edge abcd_graph ''A'' ''Z'') \<noteq> 0" "snd (remove_vertex_by_index abcd_graph 4) \<noteq> 0"
    "snd (remove_vertex abcd_graph ''Z'') \<noteq> 0"
    by code_simp+
  have w: "well_formed abcd_graph" "snd (add_edge_by_index abcd_graph 0 1) = 0"
    "head (vertices abcd_graph ! 0) = [2]" "head (vertices abcd_graph ! 1) = [3]"
    by code_simp+
  from failed_mutation_leaves_graph[of True abcd_graph "''A''" 0 2 "''A''" "''A''" 4]
    failed_mutation_leaves_graph[of True abcd_graph "''Z''" 0 1 "''A''" "''Z''" 4] e w
  show ?thesis by simp
qed

section \<open>The loops of remove_vertex_by_index\<close>

lemma well_formed_square: "well_formed g \<Longrightarrow> square (adjMatrix g)"
  by (simp add: well_formed_def square_def list_all_length)

lemma square_set_cell: "square a \<Longrightarrow> square (set_cell a i j x)"
proof (cases "i < length a")
  case True
  assume "square a"
  with True show ?thesis
    by (simp add: square_def set_cell_def nth_list_update)
next
  case False
  assume "square a"
  moreover from False have "a[i := (a ! i)[j := x]] = a"
    by (intro list_update_beyond) simp
  ultimately show ?thesis by (simp add: set_cell_def)
qed

lemma nth_set_cell:
  "square a \<Longrightarrow> i < MAX_VERTICES \<Longrightarrow> j < MAX_VERTICES \<Longrightarrow>
     set_cell a i j x ! r ! c = (if r = i \<and> c = j then x else a ! r ! c)"
  by (simp add: square_def set_cell_def nth_list_update)

lemma fold_upt_Suc: "a \<le> b \<Longrightarrow> fold f [a..<Suc b] s = f b (fold f [a..<b] s)"
  by simp

text \<open>Copying one row, one column, and clearing.\<close>

lemma row_copy:
  assumes "square a" and "i + 1 < MAX_VERTICES" and "m \<le> MAX_VERTICES"
  shows "square (fold (\<lambda>j a. set_cell a i j (a ! (i + 1) ! j)) [0..<m] a) \<and>
     (\<forall>r c. fold (\<lambda>j a. set_cell a i j (a ! (i + 1) ! j)) [0..<m] a ! r ! c
              = (if r = i \<and> c < m then a ! (i + 1) ! c else a ! r ! c))"
  using assms(3)
proof (induction m)
  case 0
  with assms(1) show ?case by simp
next
  case (Suc m)
  define b where "b = fold (\<lambda>j a. set_cell a i j (a ! (i + 1) ! j)) [0..<m] a"
  from Suc have sq: "square b"
    and pt: "\<And>r c. b ! r ! c = (if r = i \<and> c < m then a ! (i + 1) ! c else a ! r ! c)"
    by (simp_all add: b_def)
  have step: "fold (\<lambda>j a. set_cell a i j (a ! (i + 1) ! j)) [0..<Suc m] a
                = set_cell b i m (b ! (i + 1) ! m)"
    unfolding b_def by (rule fold_upt_Suc) simp
  from Suc.prems assms(2) have bnd: "i < MAX_VERTICES" "m < MAX_VERTICES" by simp_all
  show ?case
    unfolding step
    by (simp add: square_set_cell[OF sq] nth_set_cell[OF sq bnd] pt less_Suc_eq)
qed

lemma rows_shifted:
  assumes "square a" and "m \<le> MAX_VERTICES" and "k < m"
  shows "square (fold (\<lambda>i a. fold (\<lambda>j a. set_cell a i j (a ! (i + 1) ! j)) [0..<m] a) [t..<k] a) \<and>
     (\<forall>r c. fold (\<lambda>i a. fold (\<lambda>j a. set_cell a i j (a ! (i + 1) ! j)) [0..<m] a) [t..<k] a ! r ! c
              = (if t \<le> r \<and> r < k \<and> c < m then a ! (r + 1) ! c else a ! r ! c))"
  using assms(3)
proof (induction k)
  case 0
  with assms(1) show ?case by simp
next
  case (Suc k)
  define b where
    "b = fold (\<lambda>i a. fold (\<lambda>j a. set_cell a i j (a ! (i + 1) ! j)) [0..<m] a) [t..<k] a"
  from Suc have sq: "square b"
    and pt: "\<And>r c. b ! r ! c = (if t \<le> r \<and> r < k \<and> c < m then a ! (r + 1) ! c else a ! r ! c)"
    by (simp_all add: b_def)
  show ?case
  proof (cases "t \<le> k")
    case True
    have step: "fold (\<lambda>i a. fold (\<lambda>j a. set_cell a i j (a ! (i + 1) ! j)) [0..<m] a) [t..<Suc k] a
                  = fold (\<lambda>j a. set_cell a k j (a ! (k + 1) ! j)) [0..<m] b"
      unfolding b_def by (rule fold_upt_Suc) (rule True)
    from Suc.prems assms(2) have "k + 1 < MAX_VERTICES" by simp
    from row_copy[OF sq this assms(2)] True show ?thesis
      unfolding step by (simp add: pt less_Suc_eq)
  next
    case False
    with assms(1) show ?thesis by simp
  qed
qed

lemma col_copy:
  assumes "square a" and "j + 1 < MAX_VERTICES" and "k \<le> MAX_VERTICES"
  shows "square (fold (\<lambda>i a. set_cell a i j (a ! i ! (j + 1))) [0..<k] a) \<and>
     (\<forall>r c. fold (\<lambda>i a. set_cell a i j (a ! i ! (j + 1))) [0..<k] a ! r ! c
              = (if c = j \<and> r < k then a ! r ! (j + 1) else a ! r ! c))"
  using assms(3)
proof (induction k)
  case 0
  with assms(1) show ?case by simp
next
  case (Suc k)
  define b where "b = fold (\<lambda>i a. set_cell a i j (a ! i ! (j + 1))) [0..<k] a"
  from Suc have sq: "square b"
    and pt: "\<And>r c. b ! r ! c = (if c = j \<and> r < k then a ! r ! (j + 1) else a ! r ! c)"
    by (simp_all add: b_def)
  have step: "fold (\<lambda>i a. set_cell a i j (a ! i ! (j + 1))) [0..<Suc k] a
                = set_cell b k j (b ! k ! (j + 1))"
    unfolding b_def by (rule fold_upt_Suc) simp
  from Suc.prems assms(2) have bnd: "k < MAX_VERTICES" "j < MAX_VERTICES" by simp_all
  show ?case
    unfolding step
    by (simp add: square_set_cell[OF sq] nth_set_cell[OF sq bnd] pt less_Suc_eq)
qed

lemma cols_shifted:
  assumes "square a" and "k < MAX_VERTICES" and "l \<le> k"
  shows "square (fold (\<lambda>j a. fold (\<lambda>i a. set_cell a i j (a ! i ! (j + 1))) [0..<k] a) [t..<l] a) \<and>
     (\<forall>r c. fold (\<lambda>j a. fold (\<lambda>i a. set_cell a i j (a ! i ! (j + 1))) [0..<k] a) [t..<l] a ! r ! c
              = (if t \<le> c \<and> c < l \<and> r < k then a ! r ! (c + 1) else a ! r ! c))"
  using assms(3)
proof (induction l)
  case 0
  with assms(1) show ?case by simp
next
  case (Suc l)
  define b where
    "b = fold (\<lambda>j a. fold (\<lambda>i a. set_cell a i j (a ! i ! (j + 1))) [0..<k] a) [t..<l] a"
  from Suc have sq: "square b"
    and pt: "\<And>r c. b ! r ! c = (if t \<le> c \<and> c < l \<and> r < k then a ! r ! (c + 1) else a ! r ! c)"
    by (simp_all add: b_def)
  show ?case
  proof (cases "t \<le> l")
    case True
    have step: "fold (\<lambda>j a. fold (\<lambda>i a. set_cell a i j (a ! i ! (j + 1))) [0..<k] a) [t..<Suc l] a
                  = fold (\<lambda>i a. set_cell a i l (a ! i ! (l + 1))) [0..<k] b"
      unfolding b_def by (rule fold_upt_Suc) (rule True)
    from Suc.prems assms(2) have "l + 1 < MAX_VERTICES" "k \<le> MAX_VERTICES" by simp_all
    from col_copy[OF sq this] True show ?thesis
      unfolding step by (simp add: pt less_Suc_eq)
  next
    case False
    with assms(1) show ?thesis by simp
  qed
qed

lemma last_cleared:
  assumes "square a" and "p < MAX_VERTICES" and "k \<le> MAX_VERTICES"
  shows "square (fold (\<lambda>i a. set_cell (set_cell a p i 0) i p 0) [0..<k] a) \<and>
     (\<forall>r c. fold (\<lambda>i a. set_cell (set_cell a p i 0) i p 0) [0..<k] a ! r ! c
              = (if (r = p \<and> c < k) \<or> (c = p \<and> r < k) then 0 else a ! r ! c))"
  using assms(3)
proof (induction k)
  case 0
  with assms(1) show ?case by simp
next
  case (Suc k)
  define b where "b = fold (\<lambda>i a. set_cell (set_cell a p i 0) i p 0) [0..<k] a"
  from Suc have sq: "square b"
    and pt: "\<And>r c. b ! r ! c = (if (r = p \<and> c < k) \<or> (c = p \<and> r < k) then 0 else a ! r ! c)"
    by (simp_all add: b_def)
  have step: "fold (\<lambda>i a. set_cell (set_cell a p i 0) i p 0) [0..<Suc k] a
                = set_cell (set_cell b p k 0) k p 0"
    unfolding b_def by (rule fold_upt_Suc) simp
  from Suc.prems have bnd: "k < MAX_VERTICES" by simp
  note sq1 = square_set_cell[OF sq, of p k 0]
  have e1: "set_cell (set_cell b p k 0) k p 0 ! r ! c
             = (if r = k \<and> c = p then 0 else set_cell b p k 0 ! r ! c)" for r c
    by (rule nth_set_cell[OF sq1 bnd assms(2)])
  have e2: "set_cell b p k 0 ! r ! c = (if r = p \<and> c = k then 0 else b ! r ! c)" for r c
    by (rule nth_set_cell[OF sq assms(2) bnd])
  have "square (set_cell (set_cell b p k 0) k p 0)"
    by (rule square_set_cell[OF sq1])
  moreover have "set_cell (set_cell b p k 0) k p 0 ! r ! c
      = (if (r = p \<and> c < Suc k) \<or> (c = p \<and> r < Suc k) then 0 else a ! r ! c)" for r c
    unfolding e1 e2 pt by (auto simp: less_Suc_eq)
  ultimately show ?case
    unfolding step by blast
qed

text \<open>The loops over the vertex array.\<close>

lemma remove_occurrences_filter: "remove_occurrences xs t = filter (\<lambda>x. x \<noteq> t) xs"
  by (induction xs) auto

lemma unlink_first_remove1: "unlink_first xs x = remove1 x xs"
  by (induction xs) auto

lemma drop_target_loop:
  assumes "m \<le> length vs"
  shows "length (rv_drop_target m t target vs) = length vs \<and>
     (\<forall>i. rv_drop_target m t target vs ! i
          = (if i < m \<and> i \<noteq> t then remove_occurrences_from_list (vs ! i) target else vs ! i))"
  using assms
proof (induction m)
  case 0
  then show ?case by (simp add: rv_drop_target_def)
next
  case (Suc m)
  define b where "b = rv_drop_target m t target vs"
  from Suc have len: "length b = length vs"
    and pt: "\<And>i. b ! i = (if i < m \<and> i \<noteq> t then remove_occurrences_from_list (vs ! i) target
                              else vs ! i)"
    by (simp_all add: b_def)
  have step: "rv_drop_target (Suc m) t target vs
                = (if m = t then b else b[m := remove_occurrences_from_list (b ! m) target])"
    unfolding b_def rv_drop_target_def by (rule fold_upt_Suc) simp
  from Suc.prems len have "m < length b" by simp
  then show ?case
    unfolding step by (simp add: len pt nth_list_update less_Suc_eq)
qed

lemma vertex_overwrite_rev [simp]:
  "(x :: Vertex)\<lparr>head := b, name := a\<rparr> = \<lparr>name = a, head = b\<rparr>"
  by (cases x) simp

lemma release_slot:
  "t < length vs \<Longrightarrow> rv_release t vs = vs[t := \<lparr>name = None, head = []\<rparr>]"
  by (simp add: rv_release_def set_name_def set_head_def)

lemma shift_loop:
  assumes "k < length vs" and "l \<le> k"
  shows "length (fold (\<lambda>i vs. vs[i := vs ! (i + 1)]) [t..<l] vs) = length vs \<and>
     (\<forall>i. fold (\<lambda>i vs. vs[i := vs ! (i + 1)]) [t..<l] vs ! i
          = (if t \<le> i \<and> i < l then vs ! (i + 1) else vs ! i))"
  using assms(2)
proof (induction l)
  case 0
  then show ?case by simp
next
  case (Suc l)
  define b where "b = fold (\<lambda>i vs. vs[i := vs ! (i + 1)]) [t..<l] vs"
  from Suc have len: "length b = length vs"
    and pt: "\<And>i. b ! i = (if t \<le> i \<and> i < l then vs ! (i + 1) else vs ! i)"
    by (simp_all add: b_def)
  show ?case
  proof (cases "t \<le> l")
    case True
    have step: "fold (\<lambda>i vs. vs[i := vs ! (i + 1)]) [t..<Suc l] vs = b[l := b ! (l + 1)]"
      unfolding b_def by (rule fold_upt_Suc) (rule True)
    from Suc.prems assms(1) len have "l < length b" by simp
    with True show ?thesis
      unfolding step by (simp add: len pt nth_list_update less_Suc_eq)
  next
    case False
    then show ?thesis by auto
  qed
qed

lemma renumber_loop:
  assumes "k \<le> length vs"
  shows "length (fold (\<lambda>i vs. set_head vs i (f (head (vs ! i)))) [0..<k] vs) = length vs \<and>
     (\<forall>i. fold (\<lambda>i vs. set_head vs i (f (head (vs ! i)))) [0..<k] vs ! i
          = (if i < k then (vs ! i)\<lparr>head := f (head (vs ! i))\<rparr> else vs ! i))"
  using assms
proof (induction k)
  case 0
  then show ?case by simp
next
  case (Suc k)
  define b where "b = fold (\<lambda>i vs. set_head vs i (f (head (vs ! i)))) [0..<k] vs"
  from Suc have len: "length b = length vs"
    and pt: "\<And>i. b ! i = (if i < k then (vs ! i)\<lparr>head := f (head (vs ! i))\<rparr> else vs ! i)"
    by (simp_all add: b_def)
  have step: "fold (\<lambda>i vs. set_head vs i (f (head (vs ! i)))) [0..<Suc k] vs
                = set_head b k (f (head (b ! k)))"
    unfolding b_def by (rule fold_upt_Suc) simp
  from Suc.prems len have "k < length b" by simp
  then show ?case
    unfolding step by (simp add: set_head_def len pt nth_list_update less_Suc_eq)
qed

lemma remove_vertex_fields:
  assumes "0 \<le> target" and "target < n g"
  shows "remove_vertex_by_index g target =
     (\<lparr>vertices = rv_renumber (nat (n g)) target
                    (rv_shift_vertices (nat (n g)) (nat target)
                      (rv_release (nat target)
                        (rv_drop_target (nat (n g)) (nat target) target (vertices g)))),
       n = n g - 1,
       adjMatrix = rv_clear_last (nat (n g))
                     (rv_shift_cols (nat (n g)) (nat target)
                       (rv_shift_rows (nat (n g)) (nat target) (adjMatrix g)))\<rparr>, 0)"
  using assms by (simp add: remove_vertex_by_index_def Let_def)

lemma remove_vertex_vertices:
  assumes len: "length vs = MAX_VERTICES" and m: "m \<le> MAX_VERTICES" and t: "t < m"
    and tt: "int t = target"
  defines "vs' \<equiv> rv_renumber m target (rv_shift_vertices m t (rv_release t
                     (rv_drop_target m t target vs)))"
  shows "length vs' = MAX_VERTICES"
    and "i < m - 1 \<Longrightarrow> name (vs' ! i) = name (vs ! old_position t i)"
    and "i < m - 1 \<Longrightarrow> head (vs' ! i)
           = map (renumbered target) (remove_occurrences (head (vs ! old_position t i)) target)"
proof -
  define vs1 where "vs1 = rv_drop_target m t target vs"
  define vs2 where "vs2 = rv_release t vs1"
  define vs3 where "vs3 = fold (\<lambda>i vs. vs[i := vs ! (i + 1)]) [t..<m - 1] vs2"
  define vs4 where "vs4 = rv_shift_vertices m t vs2"
  from len m have "m \<le> length vs" by simp
  from drop_target_loop[OF this, of t target]
  have l1: "length vs1 = MAX_VERTICES"
    and p1: "\<And>i. vs1 ! i = (if i < m \<and> i \<noteq> t then remove_occurrences_from_list (vs ! i) target
                               else vs ! i)"
    by (simp_all add: vs1_def len)
  from l1 m t have "t < length vs1" by simp
  then have e2: "vs2 = vs1[t := \<lparr>name = None, head = []\<rparr>]"
    unfolding vs2_def by (rule release_slot)
  then have l2: "length vs2 = MAX_VERTICES" by (simp add: l1)
  from l2 m t have "m - 1 < length vs2" by simp
  from shift_loop[OF this order_refl, of t]
  have l3: "length vs3 = MAX_VERTICES"
    and p3: "\<And>i. vs3 ! i = (if t \<le> i \<and> i < m - 1 then vs2 ! (i + 1) else vs2 ! i)"
    by (simp_all add: vs3_def l2)
  from l3 m t have "m - 1 < length vs3" by simp
  then have e4: "vs4 = vs3[m - 1 := \<lparr>name = None, head = []\<rparr>]"
    unfolding vs4_def rv_shift_vertices_def Let_def vs3_def[symmetric]
    by (simp add: set_name_def set_head_def)
  then have l4: "length vs4 = MAX_VERTICES" by (simp add: l3)
  from l4 m have "m - 1 \<le> length vs4" by simp
  have e5: "vs' = fold (\<lambda>i vs. set_head vs i
                 (map (\<lambda>v. if v > target then v - 1 else v) (head (vs ! i)))) [0..<m - 1] vs4"
    unfolding vs'_def rv_renumber_def vs4_def vs2_def vs1_def ..
  from renumber_loop[OF \<open>m - 1 \<le> length vs4\<close>, of "map (\<lambda>v. if v > target then v - 1 else v)"]
  have l5: "length vs' = MAX_VERTICES"
    and p5: "\<And>i. vs' ! i = (if i < m - 1
               then (vs4 ! i)\<lparr>head := map (\<lambda>v. if v > target then v - 1 else v) (head (vs4 ! i))\<rparr>
               else vs4 ! i)"
    unfolding e5[symmetric] by (simp_all add: l4)
  have p4: "vs4 ! i = remove_occurrences_from_list (vs ! old_position t i) target" if "i < m - 1" for i
  proof -
    from that have "vs4 ! i = vs3 ! i" by (simp add: e4)
    also from that have "\<dots> = vs1 ! old_position t i"
      by (simp add: p3 e2 old_position_def)
    also from that have "\<dots> = remove_occurrences_from_list (vs ! old_position t i) target"
      by (simp add: p1 old_position_def)
    finally show ?thesis .
  qed
  show "length vs' = MAX_VERTICES" by (rule l5)
  show "name (vs' ! i) = name (vs ! old_position t i)" if "i < m - 1"
    using that by (simp add: p5 p4 remove_occurrences_from_list_def)
  show "head (vs' ! i)
           = map (renumbered target) (remove_occurrences (head (vs ! old_position t i)) target)"
    if "i < m - 1"
    using that by (simp add: p5 p4 remove_occurrences_from_list_def renumbered_def[abs_def])
qed

lemma remove_vertex_matrix:
  assumes sq: "square a" and m: "m \<le> MAX_VERTICES" and t: "t < m"
  defines "a' \<equiv> rv_clear_last m (rv_shift_cols m t (rv_shift_rows m t a))"
  shows "square a'"
    and "r < m - 1 \<Longrightarrow> c < m - 1 \<Longrightarrow> a' ! r ! c = a ! old_position t r ! old_position t c"
    and "(\<And>r c. m \<le> r \<or> m \<le> c \<Longrightarrow> r < MAX_VERTICES \<Longrightarrow> c < MAX_VERTICES \<Longrightarrow> a ! r ! c = 0)
           \<Longrightarrow> m - 1 \<le> r \<or> m - 1 \<le> c \<Longrightarrow> r < MAX_VERTICES \<Longrightarrow> c < MAX_VERTICES
           \<Longrightarrow> a' ! r ! c = 0"
proof -
  define a1 where "a1 = rv_shift_rows m t a"
  define a2 where "a2 = rv_shift_cols m t a1"
  from t have k: "m - 1 < m" by simp
  from rows_shifted[OF sq m k, of t]
  have s1: "square a1"
    and p1: "\<And>r c. a1 ! r ! c
               = (if t \<le> r \<and> r < m - 1 \<and> c < m then a ! (r + 1) ! c else a ! r ! c)"
    by (simp_all add: a1_def rv_shift_rows_def)
  from m t have "m - 1 < MAX_VERTICES" by simp
  from cols_shifted[OF s1 this order_refl, of t]
  have s2: "square a2"
    and p2: "\<And>r c. a2 ! r ! c
               = (if t \<le> c \<and> c < m - 1 \<and> r < m - 1 then a1 ! r ! (c + 1) else a1 ! r ! c)"
    by (simp_all add: a2_def rv_shift_cols_def)
  from last_cleared[OF s2 \<open>m - 1 < MAX_VERTICES\<close> m]
  have s3: "square a'"
    and p3: "\<And>r c. a' ! r ! c
               = (if (r = m - 1 \<and> c < m) \<or> (c = m - 1 \<and> r < m) then 0 else a2 ! r ! c)"
    by (simp_all add: a'_def rv_clear_last_def a2_def a1_def)
  show "square a'" by (rule s3)
  show "a' ! r ! c = a ! old_position t r ! old_position t c" if "r < m - 1" "c < m - 1"
  proof -
    from that have "a' ! r ! c = a2 ! r ! c" by (simp add: p3)
    also from that have "\<dots> = a1 ! r ! old_position t c"
      by (simp add: p2 old_position_def)
    also from that have "\<dots> = a ! old_position t r ! old_position t c"
      by (auto simp: p1 old_position_def)
    finally show ?thesis .
  qed
  show "a' ! r ! c = 0"
    if z: "\<And>r c. m \<le> r \<or> m \<le> c \<Longrightarrow> r < MAX_VERTICES \<Longrightarrow> c < MAX_VERTICES \<Longrightarrow> a ! r ! c = 0"
      and o: "m - 1 \<le> r \<or> m - 1 \<le> c" and b: "r < MAX_VERTICES" "c < MAX_VERTICES"
  proof (cases "(r = m - 1 \<and> c < m) \<or> (c = m - 1 \<and> r < m)")
    case True
    then show ?thesis by (simp add: p3)
  next
    case False
    with o t have "m \<le> r \<or> m \<le> c" by auto
    with False o have "a' ! r ! c = a ! r ! c"
      by (auto simp: p3 p2 p1)
    with z[OF \<open>m \<le> r \<or> m \<le> c\<close> b] show ?thesis by simp
  qed
qed

section \<open>Every operation keeps the invariant\<close>

lemma well_formed_iff:
  "well_formed g \<longleftrightarrow> length (vertices g) = MAX_VERTICES \<and> square (adjMatrix g) \<and>
     0 \<le> n g \<and> n g \<le> int MAX_VERTICES"
  by (auto simp: well_formed_def square_def list_all_length)

lemma head_set_head:
  "i < length vs \<Longrightarrow> head (set_head vs i x ! j) = (if j = i then x else head (vs ! j))"
  by (simp add: set_head_def nth_list_update)

lemma length_set_head [simp]: "length (set_head vs i x) = length vs"
  by (simp add: set_head_def)

lemma init_graph_inv: "graph_inv init_graph"
  by (simp add: graph_inv_def well_formed_def lists_ok_def mirror_ok_def outside_ok_def
        init_graph_def list_all_iff)

text \<open>A call that fails returns the graph it was given.\<close>

lemma add_vertex_failure: "snd (add_vertex mem g nm) \<noteq> 0 \<Longrightarrow> fst (add_vertex mem g nm) = g"
  by (auto simp: add_vertex_def find_vertex_index_def Let_def split: if_splits)

lemma add_edge_by_index_failure:
  "snd (add_edge_by_index g u v) \<noteq> 0 \<Longrightarrow> fst (add_edge_by_index g u v) = g"
  by (auto simp: add_edge_by_index_def Let_def split: if_splits)

lemma remove_edge_by_index_failure:
  "snd (remove_edge_by_index g u v) \<noteq> 0 \<Longrightarrow> fst (remove_edge_by_index g u v) = g"
  by (auto simp: remove_edge_by_index_def Let_def split: if_splits)

lemma remove_vertex_by_index_failure:
  "snd (remove_vertex_by_index g t) \<noteq> 0 \<Longrightarrow> fst (remove_vertex_by_index g t) = g"
  by (auto simp: remove_vertex_by_index_def Let_def split: if_splits)

lemma add_edge_failure: "snd (add_edge g a b) \<noteq> 0 \<Longrightarrow> fst (add_edge g a b) = g"
  by (auto simp: add_edge_def find_vertex_index_def add_edge_by_index_failure split: if_splits)

lemma remove_edge_failure: "snd (remove_edge g a b) \<noteq> 0 \<Longrightarrow> fst (remove_edge g a b) = g"
  by (auto simp: remove_edge_def find_vertex_index_def remove_edge_by_index_failure
        split: if_splits)

lemma remove_vertex_failure: "snd (remove_vertex g nm) \<noteq> 0 \<Longrightarrow> fst (remove_vertex g nm) = g"
  by (auto simp: remove_vertex_def find_vertex_index_def remove_vertex_by_index_failure
        split: if_splits)

text \<open>\<open>add_vertex\<close> keeps the invariant.\<close>

lemma add_vertex_inv:
  assumes inv: "graph_inv g"
  shows "graph_inv (fst (add_vertex mem g nm))"
proof (cases "snd (add_vertex mem g nm) = 0")
  case False
  with inv show ?thesis by (simp add: add_vertex_failure)
next
  case True
  define g' where "g' = fst (add_vertex mem g nm)"
  from True have ok: "add_vertex mem g nm = (g', 0)"
    unfolding g'_def by (metis prod.collapse)
  from inv have wf: "well_formed g" and lo: "lists_ok g" and mo: "mirror_ok g"
    and oo: "outside_ok g"
    by (simp_all add: graph_inv_def)
  note s = add_vertex_success[OF ok]
  from wf have len: "length (vertices g) = MAX_VERTICES" and n0: "0 \<le> n g"
    and sq: "square (adjMatrix g)"
    by (simp_all add: well_formed_iff)
  define N where "N = nat (n g)"
  from s(1) n0 len have N: "N < MAX_VERTICES" "N < length (vertices g)" "n g = int N"
    by (simp_all add: N_def)
  from N(2) have "g' = g\<lparr>vertices := (vertices g)[N := \<lparr>name = strdup_local mem nm, head = []\<rparr>],
                         n := n g + 1\<rparr>"
    unfolding N_def by (rule s(3))
  then have g': "vertices g' = (vertices g)[N := \<lparr>name = strdup_local mem nm, head = []\<rparr>]"
    "n g' = int N + 1" "adjMatrix g' = adjMatrix g"
    by (simp_all add: N(3))
  have hd: "head (vertices g' ! i) = (if i = N then [] else head (vertices g ! i))" for i
    using N by (simp add: g' nth_list_update)
  have "well_formed g'"
    using N sq len by (simp add: well_formed_iff g')
  moreover have "lists_ok g'"
    unfolding lists_ok_def
  proof (intro allI impI)
    fix i assume "i < nat (n g')"
    then have i: "i < N \<or> i = N" by (auto simp: g')
    show "distinct (head (vertices g' ! i)) \<and>
        (\<forall>v\<in>set (head (vertices g' ! i)).
            0 \<le> v \<and> v < n g' \<and> v \<noteq> int i \<and> int i \<in> set (head (vertices g' ! nat v)))"
    proof (cases "i = N")
      case True
      then show ?thesis by (simp add: hd)
    next
      case False
      with i have "i < nat (n g)" by (simp add: N)
      with lo have d: "distinct (head (vertices g ! i))"
        and e: "\<And>v. v \<in> set (head (vertices g ! i)) \<Longrightarrow>
                 0 \<le> v \<and> v < n g \<and> v \<noteq> int i \<and> int i \<in> set (head (vertices g ! nat v))"
        by (auto simp: lists_ok_def)
      show ?thesis
      proof (intro conjI ballI)
        from False d show "distinct (head (vertices g' ! i))" by (simp add: hd)
      next
        fix v assume "v \<in> set (head (vertices g' ! i))"
        with False have "v \<in> set (head (vertices g ! i))" by (simp add: hd)
        from e[OF this] have v: "0 \<le> v" "v < int N" "v \<noteq> int i"
          "int i \<in> set (head (vertices g ! nat v))"
          by (simp_all add: N)
        then have "nat v \<noteq> N" by simp
        with v show "0 \<le> v" "v < n g'" "v \<noteq> int i"
          "int i \<in> set (head (vertices g' ! nat v))"
          by (simp_all add: hd g')
      qed
    qed
  qed
  moreover have "mirror_ok g'"
    unfolding mirror_ok_def
  proof (intro allI impI)
    fix i j assume "i < nat (n g')" "j < nat (n g')"
    then have ij: "i < N \<or> i = N" "j < N \<or> j = N" by (auto simp: g')
    show "adjMatrix g' ! i ! j = (if int j \<in> set (head (vertices g' ! i)) then 1 else 0)"
    proof (cases "i = N \<or> j = N")
      case True
      with ij N oo have z: "adjMatrix g ! i ! j = 0"
        by (auto simp: outside_ok_def)
      have "int j \<notin> set (head (vertices g' ! i))"
      proof (cases "i = N")
        case True
        then show ?thesis by (simp add: hd)
      next
        case False
        with True ij have "j = N" "i < nat (n g)" by (auto simp: N)
        with lo show ?thesis by (auto simp: lists_ok_def hd N)
      qed
      with z show ?thesis by (simp add: g')
    next
      case False
      with ij have "i < nat (n g)" "j < nat (n g)" by (auto simp: N)
      with mo False show ?thesis by (simp add: mirror_ok_def hd g')
    qed
  qed
  moreover have "outside_ok g'"
    using oo by (auto simp: outside_ok_def g' N)
  ultimately show ?thesis
    unfolding graph_inv_def g'_def by blast
qed

lemma lists_okD:
  assumes "lists_ok g" and "i < nat (n g)"
  shows "distinct (head (vertices g ! i))"
    and "v \<in> set (head (vertices g ! i)) \<Longrightarrow> 0 \<le> v"
    and "v \<in> set (head (vertices g ! i)) \<Longrightarrow> v < n g"
    and "v \<in> set (head (vertices g ! i)) \<Longrightarrow> v \<noteq> int i"
    and "v \<in> set (head (vertices g ! i)) \<Longrightarrow> int i \<in> set (head (vertices g ! nat v))"
  using assms by (auto simp: lists_ok_def)

lemma mirror_okD:
  "mirror_ok g \<Longrightarrow> i < nat (n g) \<Longrightarrow> j < nat (n g) \<Longrightarrow>
     adjMatrix g ! i ! j = (if int j \<in> set (head (vertices g ! i)) then 1 else 0)"
  by (simp add: mirror_ok_def)

lemma outside_okD:
  "outside_ok g \<Longrightarrow> i < MAX_VERTICES \<Longrightarrow> j < MAX_VERTICES \<Longrightarrow>
     nat (n g) \<le> i \<or> nat (n g) \<le> j \<Longrightarrow> adjMatrix g ! i ! j = 0"
  unfolding outside_ok_def by blast

lemma add_edge_by_index_success:
  assumes wf: "well_formed g" and ok: "snd (add_edge_by_index g u v) = 0"
  defines "g' \<equiv> fst (add_edge_by_index g u v)"
  shows "0 \<le> u" and "u < n g" and "0 \<le> v" and "v < n g" and "u \<noteq> v"
    and "adjMatrix g ! nat u ! nat v = 0"
    and "n g' = n g" and "length (vertices g') = MAX_VERTICES" and "square (adjMatrix g')"
    and "\<And>i. head (vertices g' ! i)
            = (if i = nat v then u # head (vertices g ! i)
               else if i = nat u then v # head (vertices g ! i) else head (vertices g ! i))"
    and "\<And>r c. adjMatrix g' ! r ! c
            = (if (r = nat u \<and> c = nat v) \<or> (r = nat v \<and> c = nat u) then 1
               else adjMatrix g ! r ! c)"
proof -
  from ok show r: "0 \<le> u" "u < n g" "0 \<le> v" "v < n g" "u \<noteq> v"
    and "adjMatrix g ! nat u ! nat v = 0"
    by (auto simp: add_edge_by_index_def split: if_splits)
  from wf have len: "length (vertices g) = MAX_VERTICES" and sq: "square (adjMatrix g)"
    and nn: "n g \<le> int MAX_VERTICES"
    by (simp_all add: well_formed_iff)
  from r nn len have b: "nat u < MAX_VERTICES" "nat v < MAX_VERTICES" "nat u \<noteq> nat v"
    "nat u < length (vertices g)" "nat v < length (vertices g)"
    by simp_all
  from r \<open>adjMatrix g ! nat u ! nat v = 0\<close> have e: "g' = g\<lparr>vertices :=
        set_head (set_head (vertices g) (nat u) (v # head (vertices g ! nat u))) (nat v)
          (u # head (set_head (vertices g) (nat u) (v # head (vertices g ! nat u)) ! nat v)),
      adjMatrix := set_cell (set_cell (adjMatrix g) (nat v) (nat u) 1) (nat u) (nat v) 1\<rparr>"
    unfolding g'_def by (simp add: add_edge_by_index_def Let_def)
  show "n g' = n g" "length (vertices g') = MAX_VERTICES"
    by (simp_all add: e len)
  show "square (adjMatrix g')"
    by (simp add: e square_set_cell sq)
  show "head (vertices g' ! i)
            = (if i = nat v then u # head (vertices g ! i)
               else if i = nat u then v # head (vertices g ! i) else head (vertices g ! i))" for i
    using b by (simp add: e head_set_head)
  note sq1 = square_set_cell[OF sq, of "nat v" "nat u" 1]
  show "adjMatrix g' ! r ! c
            = (if (r = nat u \<and> c = nat v) \<or> (r = nat v \<and> c = nat u) then 1
               else adjMatrix g ! r ! c)" for r c
    using b by (simp add: e nth_set_cell[OF sq1] nth_set_cell[OF sq])
qed

lemma add_edge_by_index_inv:
  assumes inv: "graph_inv g"
  shows "graph_inv (fst (add_edge_by_index g u v))"
proof (cases "snd (add_edge_by_index g u v) = 0")
  case False
  with inv show ?thesis by (simp add: add_edge_by_index_failure)
next
  case True
  define g' where "g' = fst (add_edge_by_index g u v)"
  from inv have wf: "well_formed g" and lo: "lists_ok g" and mo: "mirror_ok g"
    and oo: "outside_ok g"
    by (simp_all add: graph_inv_def)
  note s = add_edge_by_index_success[OF wf True, folded g'_def]
  define a where "a = nat u"
  define b where "b = nat v"
  from s(1-5) have ab: "a < nat (n g)" "b < nat (n g)" "a \<noteq> b" "u = int a" "v = int b"
    by (simp_all add: a_def b_def)
  have hd: "head (vertices g' ! i)
            = (if i = b then int a # head (vertices g ! i)
               else if i = a then int b # head (vertices g ! i) else head (vertices g ! i))" for i
    using s(10)[of i] by (simp add: ab(4,5))
  have mx: "adjMatrix g' ! r ! c
            = (if (r = a \<and> c = b) \<or> (r = b \<and> c = a) then 1 else adjMatrix g ! r ! c)" for r c
    using s(11)[of r c] by (simp add: ab(4,5))
  from wf have nn: "0 \<le> n g" "n g \<le> int MAX_VERTICES" by (simp_all add: well_formed_iff)
  from s(6) mirror_okD[OF mo ab(1,2)] have nb: "int b \<notin> set (head (vertices g ! a))"
    by (simp add: ab(4,5) split: if_splits)
  have na: "int a \<notin> set (head (vertices g ! b))"
  proof
    assume "int a \<in> set (head (vertices g ! b))"
    from lists_okD(5)[OF lo ab(2) this] nb show False by simp
  qed
  have sub: "set (head (vertices g ! i)) \<subseteq> set (head (vertices g' ! i))" for i
    by (auto simp: hd)
  have "well_formed g'"
    using s(7,8,9) nn by (simp add: well_formed_iff)
  moreover have "lists_ok g'"
    unfolding lists_ok_def s(7)
  proof (intro allI impI)
    fix i assume i: "i < nat (n g)"
    from lists_okD(1)[OF lo i] na nb have d: "distinct (head (vertices g' ! i))"
      by (cases "i = a"; cases "i = b"; simp add: hd)
    have "0 \<le> w \<and> w < n g \<and> w \<noteq> int i \<and> int i \<in> set (head (vertices g' ! nat w))"
      if w: "w \<in> set (head (vertices g' ! i))" for w
    proof -
      from w consider "i = b" "w = int a" | "i = a" "w = int b"
        | "w \<in> set (head (vertices g ! i))"
        by (cases "i = a"; cases "i = b"; auto simp: hd)
      then show ?thesis
      proof cases
        case 1
        with ab show ?thesis by (simp add: hd)
      next
        case 2
        with ab show ?thesis by (simp add: hd)
      next
        case 3
        from lists_okD(2-5)[OF lo i 3] sub[of "nat w"] show ?thesis by auto
      qed
    qed
    with d show "distinct (head (vertices g' ! i)) \<and>
        (\<forall>v\<in>set (head (vertices g' ! i)).
            0 \<le> v \<and> v < n g \<and> v \<noteq> int i \<and> int i \<in> set (head (vertices g' ! nat v)))"
      by blast
  qed
  moreover have "mirror_ok g'"
    unfolding mirror_ok_def s(7)
  proof (intro allI impI)
    fix i j assume "i < nat (n g)" "j < nat (n g)"
    have "int j \<in> set (head (vertices g' ! i)) \<longleftrightarrow>
            (i = b \<and> j = a) \<or> (i = a \<and> j = b) \<or> int j \<in> set (head (vertices g ! i))"
      by (cases "i = a"; cases "i = b"; simp add: hd)
    with mirror_okD[OF mo \<open>i < nat (n g)\<close> \<open>j < nat (n g)\<close>] show
      "adjMatrix g' ! i ! j = (if int j \<in> set (head (vertices g' ! i)) then 1 else 0)"
      by (simp add: mx)
  qed
  moreover have "outside_ok g'"
    unfolding outside_ok_def s(7)
  proof (intro allI impI)
    fix i j assume b: "i < MAX_VERTICES" "j < MAX_VERTICES"
      and out: "nat (n g) \<le> i \<or> nat (n g) \<le> j"
    from out ab have "\<not> ((i = a \<and> j = b) \<or> (i = b \<and> j = a))" by auto
    with outside_okD[OF oo b out] show "adjMatrix g' ! i ! j = 0" by (simp add: mx)
  qed
  ultimately show ?thesis
    unfolding graph_inv_def g'_def by blast
qed

lemma two_cells:
  assumes "square m" and "a < MAX_VERTICES" and "b < MAX_VERTICES"
  shows "set_cell (set_cell m b a x) a b x ! r ! c
           = (if r = a \<and> c = b then x else if r = b \<and> c = a then x else m ! r ! c)"
  unfolding nth_set_cell[OF square_set_cell[OF assms(1)] assms(2,3)]
    nth_set_cell[OF assms(1) assms(3,2)]
  by (rule refl)

lemma remove_edge_by_index_success:
  assumes wf: "well_formed g" and ok: "snd (remove_edge_by_index g u v) = 0"
  defines "g' \<equiv> fst (remove_edge_by_index g u v)"
  shows "0 \<le> u" and "u < n g" and "0 \<le> v" and "v < n g"
    and "adjMatrix g ! nat u ! nat v \<noteq> 0"
    and "n g' = n g" and "length (vertices g') = MAX_VERTICES" and "square (adjMatrix g')"
    and "\<And>i. u \<noteq> v \<Longrightarrow> head (vertices g' ! i)
            = (if i = nat v then unlink_first (head (vertices g ! i)) u
               else if i = nat u then unlink_first (head (vertices g ! i)) v
               else head (vertices g ! i))"
    and "\<And>r c. adjMatrix g' ! r ! c
            = (if r = nat u \<and> c = nat v then 0 else if r = nat v \<and> c = nat u then 0
               else adjMatrix g ! r ! c)"
proof -
  from ok show r: "0 \<le> u" "u < n g" "0 \<le> v" "v < n g"
    and c: "adjMatrix g ! nat u ! nat v \<noteq> 0"
    by (auto simp: remove_edge_by_index_def split: if_splits)
  from wf have len: "length (vertices g) = MAX_VERTICES" and sq: "square (adjMatrix g)"
    and nn: "n g \<le> int MAX_VERTICES"
    by (simp_all add: well_formed_iff)
  from r nn len have b: "nat u < MAX_VERTICES" "nat v < MAX_VERTICES"
    "nat u < length (vertices g)" "nat v < length (vertices g)"
    by simp_all
  from r c have e: "g' = g\<lparr>vertices :=
        set_head (set_head (vertices g) (nat u) (unlink_first (head (vertices g ! nat u)) v))
          (nat v)
          (unlink_first (head (set_head (vertices g) (nat u)
                                 (unlink_first (head (vertices g ! nat u)) v) ! nat v)) u),
      adjMatrix := set_cell (set_cell (adjMatrix g) (nat v) (nat u) 0) (nat u) (nat v) 0\<rparr>"
    unfolding g'_def by (simp add: remove_edge_by_index_def Let_def)
  show "n g' = n g" "length (vertices g') = MAX_VERTICES"
    by (simp_all add: e len)
  show "square (adjMatrix g')"
    by (simp add: e square_set_cell sq)
  show "head (vertices g' ! i)
            = (if i = nat v then unlink_first (head (vertices g ! i)) u
               else if i = nat u then unlink_first (head (vertices g ! i)) v
               else head (vertices g ! i))" if "u \<noteq> v" for i
  proof -
    from that r have "nat u \<noteq> nat v" by simp
    with b show ?thesis by (simp add: e head_set_head)
  qed
  have m: "adjMatrix g' = set_cell (set_cell (adjMatrix g) (nat v) (nat u) 0) (nat u) (nat v) 0"
    by (simp add: e)
  show "adjMatrix g' ! r ! c
            = (if r = nat u \<and> c = nat v then 0 else if r = nat v \<and> c = nat u then 0
               else adjMatrix g ! r ! c)" for r c
    unfolding m by (rule two_cells[OF sq b(1,2)])
qed

lemma remove_edge_by_index_inv:
  assumes inv: "graph_inv g"
  shows "graph_inv (fst (remove_edge_by_index g u v))"
proof (cases "snd (remove_edge_by_index g u v) = 0")
  case False
  with inv show ?thesis by (simp add: remove_edge_by_index_failure)
next
  case True
  define g' where "g' = fst (remove_edge_by_index g u v)"
  from inv have wf: "well_formed g" and lo: "lists_ok g" and mo: "mirror_ok g"
    and oo: "outside_ok g"
    by (simp_all add: graph_inv_def)
  note s = remove_edge_by_index_success[OF wf True, folded g'_def]
  define a where "a = nat u"
  define b where "b = nat v"
  from s(1-4) have ab: "a < nat (n g)" "b < nat (n g)" "u = int a" "v = int b"
    by (simp_all add: a_def b_def)
  from s(5) mirror_okD[OF mo ab(1,2)] have ba: "int b \<in> set (head (vertices g ! a))"
    by (simp add: ab(3,4) split: if_splits)
  from lists_okD(4,5)[OF lo ab(1) ba] have ne: "a \<noteq> b"
    and ab': "int a \<in> set (head (vertices g ! b))"
    by simp_all
  from ne have "u \<noteq> v" by (simp add: ab(3,4))
  from s(9)[OF this] have hd: "head (vertices g' ! i)
            = (if i = b then remove1 (int a) (head (vertices g ! i))
               else if i = a then remove1 (int b) (head (vertices g ! i))
               else head (vertices g ! i))" for i
    by (simp add: ab(3,4) unlink_first_remove1)
  have mx: "adjMatrix g' ! r ! c
            = (if r = a \<and> c = b then 0 else if r = b \<and> c = a then 0
               else adjMatrix g ! r ! c)" for r c
    using s(10)[of r c] unfolding ab(3,4) nat_int .
  from wf have nn: "0 \<le> n g" "n g \<le> int MAX_VERTICES" by (simp_all add: well_formed_iff)
  have mem: "w \<in> set (head (vertices g' ! i)) \<longleftrightarrow>
               w \<in> set (head (vertices g ! i)) \<and> \<not> (i = b \<and> w = int a) \<and> \<not> (i = a \<and> w = int b)"
    if "i < nat (n g)" for i w
    using lists_okD(1)[OF lo that] ne
    by (cases "i = a"; cases "i = b"; auto simp: hd)
  have "well_formed g'"
    using s(6,7,8) nn by (simp add: well_formed_iff)
  moreover have "lists_ok g'"
    unfolding lists_ok_def s(6)
  proof (intro allI impI)
    fix i assume i: "i < nat (n g)"
    from lists_okD(1)[OF lo i] have d: "distinct (head (vertices g' ! i))"
      by (auto simp: hd)
    have "0 \<le> w \<and> w < n g \<and> w \<noteq> int i \<and> int i \<in> set (head (vertices g' ! nat w))"
      if w: "w \<in> set (head (vertices g' ! i))" for w
    proof -
      from w mem[OF i] have w0: "w \<in> set (head (vertices g ! i))"
        and x: "\<not> (i = b \<and> w = int a)" "\<not> (i = a \<and> w = int b)"
        by simp_all
      note f = lists_okD(2-5)[OF lo i w0]
      from f(1,2) have "nat w < nat (n g)" by simp
      from mem[OF this, of "int i"] f x show ?thesis by auto
    qed
    with d show "distinct (head (vertices g' ! i)) \<and>
        (\<forall>v\<in>set (head (vertices g' ! i)).
            0 \<le> v \<and> v < n g \<and> v \<noteq> int i \<and> int i \<in> set (head (vertices g' ! nat v)))"
      by blast
  qed
  moreover have "mirror_ok g'"
    unfolding mirror_ok_def s(6)
  proof (intro allI impI)
    fix i j assume ij: "i < nat (n g)" "j < nat (n g)"
    from mem[OF ij(1), of "int j"] mirror_okD[OF mo ij] ne show
      "adjMatrix g' ! i ! j = (if int j \<in> set (head (vertices g' ! i)) then 1 else 0)"
      unfolding mx by (cases "i = a"; cases "i = b"; cases "j = a"; cases "j = b"; simp)
  qed
  moreover have "outside_ok g'"
    unfolding outside_ok_def s(6)
  proof (intro allI impI)
    fix i j assume b: "i < MAX_VERTICES" "j < MAX_VERTICES"
      and out: "nat (n g) \<le> i \<or> nat (n g) \<le> j"
    from outside_okD[OF oo b out] show "adjMatrix g' ! i ! j = 0"
      unfolding mx by (cases "i = a"; cases "i = b"; cases "j = a"; cases "j = b"; simp)
  qed
  ultimately show ?thesis
    unfolding graph_inv_def g'_def by blast
qed

lemma old_position_bounds: "i < m - 1 \<Longrightarrow> old_position t i < m \<and> old_position t i \<noteq> t"
  by (auto simp: old_position_def)

lemma renumbered_old_position: "renumbered (int t) (int (old_position t i)) = int i"
  by (simp add: renumbered_def old_position_def)

lemma old_position_renumbered:
  "0 \<le> w \<Longrightarrow> w \<noteq> int t \<Longrightarrow> int (old_position t (nat (renumbered (int t) w))) = w"
  by (auto simp: renumbered_def old_position_def)

lemma renumbered_range:
  "0 \<le> w \<Longrightarrow> w < int m \<Longrightarrow> w \<noteq> int t \<Longrightarrow> t < m \<Longrightarrow>
     0 \<le> renumbered (int t) w \<and> renumbered (int t) w < int m - 1"
  by (auto simp: renumbered_def)

lemma renumbered_inj:
  "x \<noteq> target \<Longrightarrow> y \<noteq> target \<Longrightarrow> renumbered target x = renumbered target y \<Longrightarrow> x = y"
  by (auto simp: renumbered_def split: if_splits)

lemma remove_vertex_by_index_inv:
  assumes inv: "graph_inv g"
  shows "graph_inv (fst (remove_vertex_by_index g target))"
proof (cases "snd (remove_vertex_by_index g target) = 0")
  case False
  with inv show ?thesis by (simp add: remove_vertex_by_index_failure)
next
  case True
  define g' where "g' = fst (remove_vertex_by_index g target)"
  define m where "m = nat (n g)"
  define t where "t = nat target"
  from inv have wf: "well_formed g" and lo: "lists_ok g" and mo: "mirror_ok g"
    and oo: "outside_ok g"
    by (simp_all add: graph_inv_def)
  from True have r: "0 \<le> target" "target < n g"
    by (auto simp: remove_vertex_by_index_def split: if_splits)
  from wf have len: "length (vertices g) = MAX_VERTICES" and sq: "square (adjMatrix g)"
    and nn: "0 \<le> n g" "n g \<le> int MAX_VERTICES"
    by (simp_all add: well_formed_iff)
  from r nn have mt: "m \<le> MAX_VERTICES" "t < m" "int t = target" "n g = int m"
    by (simp_all add: m_def t_def)
  have e: "g' = \<lparr>vertices = rv_renumber m target (rv_shift_vertices m t (rv_release t
                     (rv_drop_target m t target (vertices g)))),
                 n = n g - 1,
                 adjMatrix = rv_clear_last m (rv_shift_cols m t (rv_shift_rows m t (adjMatrix g)))\<rparr>"
    unfolding g'_def m_def t_def by (simp add: remove_vertex_fields[OF r])
  have n': "n g' = int m - 1" "nat (n g') = m - 1"
    using mt by (simp_all add: e)
  note vv = remove_vertex_vertices[OF len mt(1,2,3)]
  note mm = remove_vertex_matrix[OF sq mt(1,2)]
  have l': "length (vertices g') = MAX_VERTICES" by (simp add: e vv(1))
  have sq': "square (adjMatrix g')" by (simp add: e mm(1))
  have hd: "head (vertices g' ! i) = map (renumbered (int t))
              (filter (\<lambda>x. x \<noteq> int t) (head (vertices g ! old_position t i)))"
    if "i < m - 1" for i
    using vv(3)[OF that] by (simp add: e remove_occurrences_filter mt(3))
  have mx: "adjMatrix g' ! i ! j = adjMatrix g ! old_position t i ! old_position t j"
    if "i < m - 1" "j < m - 1" for i j
    using mm(2)[OF that] by (simp add: e)
  have old: "old_position t i < nat (n g)" "old_position t i \<noteq> t" if "i < m - 1" for i
    using old_position_bounds[OF that, of t] by (simp_all add: m_def)
  have mem: "w' \<in> set (head (vertices g' ! i)) \<longleftrightarrow>
      (\<exists>w\<in>set (head (vertices g ! old_position t i)). w \<noteq> int t \<and> w' = renumbered (int t) w)"
    if "i < m - 1" for i w'
    by (auto simp: hd[OF that])
  have "well_formed g'"
    using l' sq' n' mt by (simp add: well_formed_iff)
  moreover have "lists_ok g'"
    unfolding lists_ok_def n'(2)
  proof (intro allI impI)
    fix i assume i: "i < m - 1"
    note lk = lists_okD[OF lo old(1)[OF i]]
    have "inj_on (renumbered (int t))
            (set (filter (\<lambda>x. x \<noteq> int t) (head (vertices g ! old_position t i))))"
    proof (rule inj_onI)
      fix x y
      assume x: "x \<in> set (filter (\<lambda>x. x \<noteq> int t) (head (vertices g ! old_position t i)))"
        and y: "y \<in> set (filter (\<lambda>x. x \<noteq> int t) (head (vertices g ! old_position t i)))"
        and xy: "renumbered (int t) x = renumbered (int t) y"
      from x y have "x \<noteq> int t" "y \<noteq> int t" by simp_all
      from renumbered_inj[OF this xy] show "x = y" .
    qed
    with lk(1) have d: "distinct (head (vertices g' ! i))"
      by (simp add: hd[OF i] distinct_map)
    have "0 \<le> w' \<and> w' < n g' \<and> w' \<noteq> int i \<and> int i \<in> set (head (vertices g' ! nat w'))"
      if w': "w' \<in> set (head (vertices g' ! i))" for w'
    proof -
      from w' mem[OF i] obtain w where w: "w \<in> set (head (vertices g ! old_position t i))"
        "w \<noteq> int t" "w' = renumbered (int t) w"
        by blast
      note f = lk(2-5)[OF w(1)]
      from f(1,2) w(2) mt have rg: "0 \<le> w'" "w' < int m - 1"
        using renumbered_range[of w m t] by (simp_all add: w(3))
      note w3 = w(3)
      note inv_ren = old_position_renumbered[OF f(1) w(2), folded w3]
      have ne: "w' \<noteq> int i"
      proof
        assume "w' = int i"
        with inv_ren have "w = int (old_position t i)" by simp
        with f(3) show False by simp
      qed
      from rg have lt: "nat w' < m - 1" by (simp add: nat_less_iff)
      from inv_ren f(1) have "old_position t (nat w') = nat w" by (simp add: nat_eq_iff)
      with f(4) have "int (old_position t i) \<in> set (head (vertices g ! old_position t (nat w')))"
        by simp
      moreover from old(2)[OF i] have "int (old_position t i) \<noteq> int t" by simp
      ultimately have "int i \<in> set (head (vertices g' ! nat w'))"
        unfolding mem[OF lt] using renumbered_old_position[of t i] by force
      with rg ne show ?thesis by (simp add: n')
    qed
    with d show "distinct (head (vertices g' ! i)) \<and>
        (\<forall>v\<in>set (head (vertices g' ! i)).
            0 \<le> v \<and> v < n g' \<and> v \<noteq> int i \<and> int i \<in> set (head (vertices g' ! nat v)))"
      by blast
  qed
  moreover have "mirror_ok g'"
    unfolding mirror_ok_def n'(2)
  proof (intro allI impI)
    fix i j assume ij: "i < m - 1" "j < m - 1"
    note lk = lists_okD[OF lo old(1)[OF ij(1)]]
    have "int j \<in> set (head (vertices g' ! i)) \<longleftrightarrow>
            int (old_position t j) \<in> set (head (vertices g ! old_position t i))"
    proof
      assume "int j \<in> set (head (vertices g' ! i))"
      with mem[OF ij(1)] obtain w where w: "w \<in> set (head (vertices g ! old_position t i))"
        "w \<noteq> int t" "int j = renumbered (int t) w"
        by blast
      note w3 = w(3)
      from old_position_renumbered[OF lk(2)[OF w(1)] w(2), folded w3] w(1)
      show "int (old_position t j) \<in> set (head (vertices g ! old_position t i))" by simp
    next
      assume a: "int (old_position t j) \<in> set (head (vertices g ! old_position t i))"
      from old(2)[OF ij(2)] have "int (old_position t j) \<noteq> int t" by simp
      with a renumbered_old_position[of t j] show "int j \<in> set (head (vertices g' ! i))"
        unfolding mem[OF ij(1)] by force
    qed
    with mirror_okD[OF mo old(1)[OF ij(1)] old(1)[OF ij(2)]] show
      "adjMatrix g' ! i ! j = (if int j \<in> set (head (vertices g' ! i)) then 1 else 0)"
      by (simp add: mx[OF ij])
  qed
  moreover have "outside_ok g'"
    unfolding outside_ok_def n'(2)
  proof (intro allI impI)
    fix i j assume b: "i < MAX_VERTICES" "j < MAX_VERTICES" and out: "m - 1 \<le> i \<or> m - 1 \<le> j"
    have "adjMatrix g ! r ! c = 0" if "m \<le> r \<or> m \<le> c" "r < MAX_VERTICES" "c < MAX_VERTICES" for r c
      using outside_okD[OF oo that(2,3)] that(1) by (simp add: m_def)
    from mm(3)[OF this out b] show "adjMatrix g' ! i ! j = 0" by (simp add: e)
  qed
  ultimately show ?thesis
    unfolding graph_inv_def g'_def by blast
qed

lemma add_edge_inv: "graph_inv g \<Longrightarrow> graph_inv (fst (add_edge g a b))"
  by (simp add: add_edge_def find_vertex_index_def add_edge_by_index_inv)

lemma remove_edge_inv: "graph_inv g \<Longrightarrow> graph_inv (fst (remove_edge g a b))"
  by (simp add: remove_edge_def find_vertex_index_def remove_edge_by_index_inv)

lemma remove_vertex_inv: "graph_inv g \<Longrightarrow> graph_inv (fst (remove_vertex g nm))"
  by (simp add: remove_vertex_def find_vertex_index_def remove_vertex_by_index_inv)

lemma apply_operation_inv: "graph_inv g \<Longrightarrow> graph_inv (apply_operation g op)"
  by (cases op)
     (simp_all add: add_vertex_inv add_edge_inv add_edge_by_index_inv remove_edge_inv
        remove_edge_by_index_inv remove_vertex_inv remove_vertex_by_index_inv)

lemma foldl_inv: "graph_inv g \<Longrightarrow> graph_inv (foldl apply_operation g ops)"
  by (induction ops arbitrary: g) (simp_all add: apply_operation_inv)

lemma run_inv: "graph_inv (run ops)"
  unfolding run_def by (rule foldl_inv) (rule init_graph_inv)

section \<open>What holds after every sequence of operations\<close>

text \<open>
  C2. In the graph that any sequence of operations builds from the empty graph, for all
  valid positions \<open>u\<close> and \<open>v\<close>: \<open>u\<close> is in the adjacency list of \<open>v\<close> exactly when \<open>v\<close>
  is in the adjacency list of \<open>u\<close>.
\<close>

theorem adjacency_symmetric:
  assumes "0 \<le> u" and "u < n (run ops)" and "0 \<le> v" and "v < n (run ops)"
  shows "u \<in> set (head (vertices (run ops) ! nat v)) \<longleftrightarrow>
         v \<in> set (head (vertices (run ops) ! nat u))"
proof -
  from run_inv[of ops] have lo: "lists_ok (run ops)" by (simp add: graph_inv_def)
  from assms have b: "nat u < nat (n (run ops))" "nat v < nat (n (run ops))" by simp_all
  show ?thesis
  proof
    assume "u \<in> set (head (vertices (run ops) ! nat v))"
    from lists_okD(5)[OF lo b(2) this] assms(3) show "v \<in> set (head (vertices (run ops) ! nat u))"
      by simp
  next
    assume "v \<in> set (head (vertices (run ops) ! nat u))"
    from lists_okD(5)[OF lo b(1) this] assms(1) show "u \<in> set (head (vertices (run ops) ! nat v))"
      by simp
  qed
qed

theorem adjacency_symmetric_witness:
  "n (run compacted_ops) = 3 \<and>
   (1 \<in> set (head (vertices (run compacted_ops) ! 0)) \<longleftrightarrow>
    0 \<in> set (head (vertices (run compacted_ops) ! 1))) \<and>
   0 \<in> set (head (vertices (run compacted_ops) ! 1))"
proof -
  have a: "n (run compacted_ops) = 3" "0 \<in> set (head (vertices (run compacted_ops) ! 1))"
    by code_simp+
  with adjacency_symmetric[of 1 compacted_ops 0] show ?thesis by simp
qed

text \<open>
  C4. In the graph that any sequence of operations builds from the empty graph, for all
  valid positions \<open>u\<close> and \<open>v\<close>: the cell \<open>(u, v)\<close> of the matrix is 1 exactly when \<open>v\<close>
  occurs in the adjacency list of \<open>u\<close>, and 0 exactly when it does not.
\<close>

theorem matrix_mirrors_lists:
  assumes "0 \<le> u" and "u < n (run ops)" and "0 \<le> v" and "v < n (run ops)"
  shows "(adjMatrix (run ops) ! nat u ! nat v = 1 \<longleftrightarrow>
            v \<in> set (head (vertices (run ops) ! nat u))) \<and>
         (adjMatrix (run ops) ! nat u ! nat v = 0 \<longleftrightarrow>
            v \<notin> set (head (vertices (run ops) ! nat u)))"
proof -
  from run_inv[of ops] have mo: "mirror_ok (run ops)" by (simp add: graph_inv_def)
  from assms have b: "nat u < nat (n (run ops))" "nat v < nat (n (run ops))" by simp_all
  from mirror_okD[OF mo b] assms(3) show ?thesis by simp
qed

theorem matrix_mirrors_lists_witness:
  "n (run compacted_ops) = 3 \<and>
   adjMatrix (run compacted_ops) ! 0 ! 1 = 1 \<and> 1 \<in> set (head (vertices (run compacted_ops) ! 0)) \<and>
   adjMatrix (run compacted_ops) ! 1 ! 2 = 0 \<and> 2 \<notin> set (head (vertices (run compacted_ops) ! 1))"
proof -
  have a: "n (run compacted_ops) = 3" "adjMatrix (run compacted_ops) ! 0 ! 1 = 1"
    "adjMatrix (run compacted_ops) ! 1 ! 2 = 0"
    by code_simp+
  with matrix_mirrors_lists[of 0 compacted_ops 1] matrix_mirrors_lists[of 1 compacted_ops 2]
  show ?thesis by simp
qed

text \<open>
  C5. In the graph that any sequence of operations builds from the empty graph, every
  entry of the adjacency list of a valid position is itself a valid position: at least
  0 and below the count.
\<close>

theorem adjacency_entries_valid:
  assumes "0 \<le> u" and "u < n (run ops)" and "v \<in> set (head (vertices (run ops) ! nat u))"
  shows "0 \<le> v \<and> v < n (run ops)"
proof -
  from run_inv[of ops] have lo: "lists_ok (run ops)" by (simp add: graph_inv_def)
  from assms have "nat u < nat (n (run ops))" by simp
  from lists_okD(2,3)[OF lo this assms(3)] show ?thesis by simp
qed

theorem adjacency_entries_valid_witness:
  "n (run compacted_ops) = 3 \<and> head (vertices (run compacted_ops) ! 0) = [1] \<and>
   (0::int) \<le> 1 \<and> 1 < n (run compacted_ops)"
proof -
  have a: "n (run compacted_ops) = 3" "head (vertices (run compacted_ops) ! 0) = [1]"
    by code_simp+
  with adjacency_entries_valid[of 0 compacted_ops 1] show ?thesis by simp
qed

section \<open>The breadth-first search\<close>

lemma valid_entriesD:
  "valid_entries g \<Longrightarrow> 0 \<le> u \<Longrightarrow> u < n g \<Longrightarrow> v \<in> set (head (vertices g ! nat u)) \<Longrightarrow>
     0 \<le> v \<and> v < n g"
  by (auto simp: valid_entries_def)

lemma positions_bound:
  assumes "distinct xs" and "set xs \<subseteq> {v. 0 \<le> v \<and> v < k}"
  shows "int (length xs) \<le> k \<or> xs = []"
proof (cases "xs = []")
  case False
  then obtain x where "x \<in> set xs" by (cases xs) auto
  with assms(2) have k: "0 < k" by auto
  have "set xs \<subseteq> {0..<k}" using assms(2) by auto
  then have "card (set xs) \<le> card {0..<k}" by (intro card_mono) auto
  with assms(1) have "length xs \<le> nat k" by (simp add: distinct_card)
  with k show ?thesis by linarith
qed simp

lemma positions_room:
  assumes "distinct xs" and "set xs \<subseteq> {v. 0 \<le> v \<and> v < k}"
    and "0 \<le> x" and "x < k" and "x \<notin> set xs"
  shows "int (length xs) < k"
proof -
  from assms have "distinct (x # xs)" "set (x # xs) \<subseteq> {v. 0 \<le> v \<and> v < k}" by auto
  from positions_bound[OF this] show ?thesis by simp
qed

lemma marked_mark:
  assumes "0 \<le> v" and "v < n g" and "length visited = nat (n g)"
  shows "marked g (visited[nat v := 1]) = insert v (marked g visited)"
proof (rule set_eqI)
  fix w
  show "w \<in> marked g (visited[nat v := 1]) \<longleftrightarrow> w \<in> insert v (marked g visited)"
  proof (cases "w = v")
    case True
    with assms show ?thesis by (simp add: marked_def)
  next
    case False
    show ?thesis
    proof (cases "0 \<le> w")
      case True
      with False assms(1) have "nat w \<noteq> nat v" by simp
      with False show ?thesis by (simp add: marked_def)
    next
      case False
      then show ?thesis using assms(1) by (simp add: marked_def)
    qed
  qed
qed

lemma marked_bounds: "marked g visited \<subseteq> {v. 0 \<le> v \<and> v < n g}"
  by (auto simp: marked_def)

lemma queue_push_queued:
  assumes "q_tail q < length (q_data q)"
  shows "\<exists>q'. queue_push q x = Some q' \<and> queued q' = queued q @ [x] \<and>
           q_head q' = q_head q \<and> length (q_data q') = length (q_data q) \<and>
           q_tail q' = q_tail q + 1"
  using assms
  by (simp add: queue_push_def queued_def take_Suc_conv_app_nth)

text \<open>The inner loop of \<open>bfs\<close> appends the neighbours not yet marked, and marks them.\<close>

lemma bfs_neighbours_appends:
  assumes "length visited = nat (n g)" and "nat (n g) \<le> length (q_data q)"
    and "q_tail q \<le> length (q_data q)"
    and "distinct (queued q)" and "set (queued q) = marked g visited"
    and "\<forall>v\<in>set vs. 0 \<le> v \<and> v < n g"
  shows "\<exists>visited' q' new.
           bfs_neighbours vs visited q = Some (visited', q') \<and>
           length visited' = nat (n g) \<and> q_head q' = q_head q \<and>
           length (q_data q') = length (q_data q) \<and> q_tail q' \<le> length (q_data q') \<and>
           queued q' = queued q @ new \<and> distinct (queued q') \<and>
           set (queued q') = marked g visited' \<and> set new \<subseteq> set vs \<and>
           set vs \<subseteq> set (queued q')"
  using assms
proof (induction vs arbitrary: visited q)
  case Nil
  then show ?case by simp
next
  case (Cons v vs)
  from Cons.prems(6) have v: "0 \<le> v" "v < n g" and vs: "\<forall>v\<in>set vs. 0 \<le> v \<and> v < n g"
    by simp_all
  from v Cons.prems(1) have inr: "\<not> (v < 0 \<or> length visited \<le> nat v)" by simp
  show ?case
  proof (cases "visited ! nat v = 0")
    case True
    with v Cons.prems(5) have fresh: "v \<notin> set (queued q)" by (simp add: marked_def)
    from Cons.prems(5) marked_bounds[of g visited]
    have "set (queued q) \<subseteq> {v. 0 \<le> v \<and> v < n g}" by simp
    from positions_room[OF Cons.prems(4) this v fresh]
    have "length (queued q) < nat (n g)" by simp
    with Cons.prems(2,3) have room: "q_tail q < length (q_data q)"
      by (simp add: queued_def)
    from queue_push_queued[OF room, of v] obtain q1 where
      push: "queue_push q v = Some q1" and q1: "queued q1 = queued q @ [v]"
      "q_head q1 = q_head q" "length (q_data q1) = length (q_data q)" "q_tail q1 = q_tail q + 1"
      by blast
    have "\<exists>visited' q' new.
           bfs_neighbours vs (visited[nat v := 1]) q1 = Some (visited', q') \<and>
           length visited' = nat (n g) \<and> q_head q' = q_head q1 \<and>
           length (q_data q') = length (q_data q1) \<and> q_tail q' \<le> length (q_data q') \<and>
           queued q' = queued q1 @ new \<and> distinct (queued q') \<and>
           set (queued q') = marked g visited' \<and> set new \<subseteq> set vs \<and>
           set vs \<subseteq> set (queued q')"
    proof (rule Cons.IH)
      show "length (visited[nat v := 1]) = nat (n g)" using Cons.prems(1) by simp
      show "nat (n g) \<le> length (q_data q1)" using Cons.prems(2) q1 by simp
      show "q_tail q1 \<le> length (q_data q1)" using room q1 by simp
      show "distinct (queued q1)" using Cons.prems(4) fresh q1 by simp
      show "set (queued q1) = marked g (visited[nat v := 1])"
        using Cons.prems(5) q1 by (simp add: marked_mark[OF v Cons.prems(1)])
      show "\<forall>v\<in>set vs. 0 \<le> v \<and> v < n g" by (rule vs)
    qed
    then obtain visited' q' new where r:
      "bfs_neighbours vs (visited[nat v := 1]) q1 = Some (visited', q')"
      "length visited' = nat (n g)" "q_head q' = q_head q1"
      "length (q_data q') = length (q_data q1)" "q_tail q' \<le> length (q_data q')"
      "queued q' = queued q1 @ new" "distinct (queued q')"
      "set (queued q') = marked g visited'" "set new \<subseteq> set vs" "set vs \<subseteq> set (queued q')"
      by blast
    from inr True push r(1)
    have 1: "bfs_neighbours (v # vs) visited q = Some (visited', q')" by simp
    from r(6) q1(1) have 2: "queued q' = queued q @ (v # new)" by simp
    from 2 r(9,10) have 3: "set (v # new) \<subseteq> set (v # vs)" "set (v # vs) \<subseteq> set (queued q')"
      by auto
    from r(3,4) q1(2,3) have 4: "q_head q' = q_head q" "length (q_data q') = length (q_data q)"
      by simp_all
    show ?thesis
      by (intro exI[of _ visited'] exI[of _ q'] exI[of _ "v # new"] conjI)
         (fact 1 r(2) 4 r(5) 2 r(7) r(8) 3)+
  next
    case False
    with v Cons.prems(5) have old: "v \<in> set (queued q)" by (simp add: marked_def)
    from Cons.IH[OF Cons.prems(1-5) vs] obtain visited' q' new where r:
      "bfs_neighbours vs visited q = Some (visited', q')"
      "length visited' = nat (n g)" "q_head q' = q_head q"
      "length (q_data q') = length (q_data q)" "q_tail q' \<le> length (q_data q')"
      "queued q' = queued q @ new" "distinct (queued q')"
      "set (queued q') = marked g visited'" "set new \<subseteq> set vs" "set vs \<subseteq> set (queued q')"
      by blast
    from inr False r(1)
    have 1: "bfs_neighbours (v # vs) visited q = Some (visited', q')" by simp
    from r(9,10,6) old
    have 3: "set new \<subseteq> set (v # vs)" "set (v # vs) \<subseteq> set (queued q')" by auto
    show ?thesis
      by (intro exI[of _ visited'] exI[of _ q'] exI[of _ new] conjI)
         (fact 1 r(2-8) 3)+
  qed
qed

lemma reachable_start: "start \<in> reachable_from g start"
  by (simp add: reachable_from_def)

lemma reachable_step:
  "u \<in> reachable_from g start \<Longrightarrow> (u, v) \<in> edges g \<Longrightarrow> v \<in> reachable_from g start"
  by (auto simp: reachable_from_def intro: rtrancl_into_rtrancl)

lemma reachable_least:
  assumes "start \<in> S" and "\<And>u v. u \<in> S \<Longrightarrow> (u, v) \<in> edges g \<Longrightarrow> v \<in> S"
  shows "reachable_from g start \<subseteq> S"
proof
  fix v assume "v \<in> reachable_from g start"
  then have "(start, v) \<in> (edges g)\<^sup>*" by (simp add: reachable_from_def)
  then show "v \<in> S"
    by (induction rule: rtrancl_induct) (auto intro: assms)
qed

lemma length_queued: "q_tail q \<le> length (q_data q) \<Longrightarrow> length (queued q) = q_tail q"
  by (simp add: queued_def)

lemma bfs_loop_correct:
  "length (vertices g) = MAX_VERTICES \<Longrightarrow> n g \<le> int MAX_VERTICES \<Longrightarrow> valid_entries g \<Longrightarrow>
     \<forall>k<nat (n g). int k < max_out \<longrightarrow> k < length cells \<Longrightarrow>
     bfs_inv g start visited q \<Longrightarrow> count = q_head q \<Longrightarrow>
     \<forall>k<count. int k < max_out \<longrightarrow> cells ! k = queued q ! k \<Longrightarrow>
     \<exists>cells' rest.
        bfs_loop g visited q count (Own cells) max_out
          = Some (g, Own cells', q_tail q + length rest) \<and>
        length cells' = length cells \<and> distinct (queued q @ rest) \<and>
        set (queued q @ rest) = reachable_from g start \<and>
        (\<forall>k<q_tail q + length rest. int k < max_out \<longrightarrow> cells' ! k = (queued q @ rest) ! k)"
proof (induction g visited q count "Own cells" max_out arbitrary: cells rule: bfs_loop.induct)
  case (1 g visited q count max_out)
  note len = "1.prems"(1) and cnt = "1.prems"(2) and ve = "1.prems"(3) and room = "1.prems"(4)
    and inv = "1.prems"(5) and count = "1.prems"(6) and recorded = "1.prems"(7)
  from inv have I: "length visited = nat (n g)" "nat (n g) \<le> length (q_data q)"
    "q_head q \<le> q_tail q" "q_tail q \<le> length (q_data q)"
    "distinct (queued q)" "set (queued q) = marked g visited"
    "queued q \<noteq> []" "hd (queued q) = start"
    "set (queued q) \<subseteq> reachable_from g start"
    and closed: "\<And>u v. u \<in> set (take (q_head q) (queued q)) \<Longrightarrow> (u, v) \<in> edges g \<Longrightarrow>
                   v \<in> set (queued q)"
    by (auto simp: bfs_inv_def)
  note lq = length_queued[OF I(4)]
  show ?case
  proof (cases "queue_empty q")
    case True
    then have ht: "q_head q = q_tail q" by (simp add: queue_empty_def)
    from I(7,8) have "start \<in> set (queued q)" by (cases "queued q") auto
    moreover from closed ht lq have "\<And>u v. u \<in> set (queued q) \<Longrightarrow> (u, v) \<in> edges g \<Longrightarrow>
                   v \<in> set (queued q)" by simp
    ultimately have "reachable_from g start \<subseteq> set (queued q)" by (rule reachable_least)
    with I(9) have eq: "set (queued q) = reachable_from g start" by blast
    from True have "bfs_loop g visited q count (Own cells) max_out = Some (g, Own cells, count)"
      by (simp add: bfs_loop.simps)
    with count recorded ht I(5) eq show ?thesis
      by (intro exI[of _ cells] exI[of _ "[]"]) simp
  next
    case False
    define h where "h = q_head q"
    define u where "u = q_data q ! h"
    define q1 where "q1 = q\<lparr>q_head := h + 1\<rparr>"
    define cells1 where "cells1 = (if int count < max_out then cells[count := u] else cells)"
    from False I(3) have ht: "h < q_tail q" by (simp add: queue_empty_def h_def)
    with I(4) have pop: "queue_pop q = Some (u, q1)"
      by (simp add: queue_pop_def u_def q1_def h_def)
    from ht lq have uq: "u = queued q ! h" "h < length (queued q)"
      by (simp_all add: u_def queued_def)
    then have u_in: "u \<in> set (queued q)" by simp
    with I(6) have u: "0 \<le> u" "u < n g" by (simp_all add: marked_def)
    from I(6) marked_bounds[of g visited]
    have "set (queued q) \<subseteq> {v. 0 \<le> v \<and> v < n g}" by simp
    from positions_bound[OF I(5) this] I(7) lq have "q_tail q \<le> nat (n g)" by simp
    with ht have hN: "h < nat (n g)" by simp
    have wr: "(if int count < max_out then write_out g (Own cells) count u else Some (g, Own cells))
                = Some (g, Own cells1)"
      using room hN count by (simp add: write_out_def cells1_def h_def)
    from u len cnt have inr: "\<not> (u < 0 \<or> length (vertices g) \<le> nat u)" by simp
    have q1q: "queued q1 = queued q" "q_tail q1 = q_tail q" "q_data q1 = q_data q"
      "q_head q1 = h + 1"
      by (simp_all add: q1_def queued_def)
    from valid_entriesD[OF ve u] have adj: "\<forall>v\<in>set (head (vertices g ! nat u)). 0 \<le> v \<and> v < n g"
      by blast
    from bfs_neighbours_appends[of visited g q1 "head (vertices g ! nat u)"] I adj q1q
    obtain visited1 q2 new where nb:
      "bfs_neighbours (head (vertices g ! nat u)) visited q1 = Some (visited1, q2)"
      "length visited1 = nat (n g)" "q_head q2 = h + 1"
      "length (q_data q2) = length (q_data q)" "q_tail q2 \<le> length (q_data q2)"
      "queued q2 = queued q @ new" "distinct (queued q2)"
      "set (queued q2) = marked g visited1" "set new \<subseteq> set (head (vertices g ! nat u))"
      "set (head (vertices g ! nat u)) \<subseteq> set (queued q2)"
      by auto
    note lq2 = length_queued[OF nb(5)]
    from lq lq2 nb(6) have t2: "q_tail q2 = q_tail q + length new"
      by (metis length_append)
    have inv2: "bfs_inv g start visited1 q2"
      unfolding bfs_inv_def
    proof (intro conjI ballI allI impI subsetI)
      show "length visited1 = nat (n g)" by (rule nb(2))
      show "nat (n g) \<le> length (q_data q2)" using I(2) nb(4) by simp
      show "q_head q2 \<le> q_tail q2" using ht t2 nb(3) by simp
      show "q_tail q2 \<le> length (q_data q2)" by (rule nb(5))
      show "distinct (queued q2)" by (rule nb(7))
      show "set (queued q2) = marked g visited1" by (rule nb(8))
      show "queued q2 \<noteq> []" using I(7) nb(6) by simp
      show "hd (queued q2) = start" using I(7,8) nb(6) by simp
      show "x \<in> reachable_from g start" if "x \<in> set (queued q2)" for x
      proof (cases "x \<in> set (queued q)")
        case True
        with I(9) show ?thesis by blast
      next
        case False
        with that nb(6,9) have "x \<in> set (head (vertices g ! nat u))" by auto
        with u have "(u, x) \<in> edges g" by (simp add: edges_def)
        with u_in I(9) show ?thesis by (blast intro: reachable_step)
      qed
      show "v \<in> set (queued q2)"
        if "w \<in> set (take (q_head q2) (queued q2))" "(w, v) \<in> edges g" for w v
      proof -
        from uq have tk: "take (q_head q2) (queued q2) = take h (queued q) @ [u]"
          by (simp add: nb(3,6) take_Suc_conv_app_nth)
        from that(1)[unfolded tk] have "w \<in> set (take h (queued q)) \<or> w = u" by auto
        then show ?thesis
        proof
          assume "w \<in> set (take h (queued q))"
          from closed[OF this[unfolded h_def] that(2)] nb(6) show ?thesis by simp
        next
          assume "w = u"
          with that(2) have "v \<in> set (head (vertices g ! nat u))" by (simp add: edges_def)
          with nb(10) show ?thesis by blast
        qed
      qed
    qed
    have rec2: "\<forall>k<count + 1. int k < max_out \<longrightarrow> cells1 ! k = queued q2 ! k"
    proof (intro allI impI)
      fix k assume k: "k < count + 1" "int k < max_out"
      show "cells1 ! k = queued q2 ! k"
      proof (cases "k = count")
        case True
        with k room hN count have "count < length cells" by (simp add: h_def)
        with True k uq count show ?thesis
          by (simp add: cells1_def nb(6) nth_append h_def)
      next
        case False
        with k have lt: "k < count" by simp
        with recorded k have "cells ! k = queued q ! k" by simp
        moreover from lt count uq have "k < length (queued q)" by (simp add: h_def)
        ultimately show ?thesis using lt by (simp add: cells1_def nb(6) nth_append)
      qed
    qed
    have room1: "\<forall>k<nat (n g). int k < max_out \<longrightarrow> k < length cells1"
      using room by (simp add: cells1_def)
    have c1: "count + 1 = q_head q2" using count nb(3) by (simp add: h_def)
    have "\<exists>cells' rest.
        bfs_loop g visited1 q2 (count + 1) (Own cells1) max_out
          = Some (g, Own cells', q_tail q2 + length rest) \<and>
        length cells' = length cells1 \<and> distinct (queued q2 @ rest) \<and>
        set (queued q2 @ rest) = reachable_from g start \<and>
        (\<forall>k<q_tail q2 + length rest. int k < max_out \<longrightarrow> cells' ! k = (queued q2 @ rest) ! k)"
      by (rule "1.hyps"[OF False pop refl wr refl inr nb(1) refl len cnt ve room1 inv2 c1 rec2])
    then obtain cells' rest where r:
      "bfs_loop g visited1 q2 (count + 1) (Own cells1) max_out
          = Some (g, Own cells', q_tail q2 + length rest)"
      "length cells' = length cells1" "distinct (queued q2 @ rest)"
      "set (queued q2 @ rest) = reachable_from g start"
      "\<forall>k<q_tail q2 + length rest. int k < max_out \<longrightarrow> cells' ! k = (queued q2 @ rest) ! k"
      by blast
    have run: "bfs_loop g visited q count (Own cells) max_out
                 = Some (g, Own cells', q_tail q + length (new @ rest))"
      by (subst bfs_loop.simps) (simp add: False pop wr inr nb(1) r(1) t2 del: One_nat_def)
    from r(2-5) show ?thesis
      by (intro exI[of _ cells'] exI[of _ "new @ rest"] conjI)
         (simp_all add: run nb(6) t2 cells1_def)
  qed
qed

lemma marked_none: "marked g (replicate (nat (n g)) 0) = {}"
  by (auto simp: marked_def)

lemma reachable_bounds:
  assumes "valid_entries g" and "0 \<le> start" and "start < n g"
  shows "reachable_from g start \<subseteq> {v. 0 \<le> v \<and> v < n g}"
proof (rule reachable_least)
  show "start \<in> {v. 0 \<le> v \<and> v < n g}" using assms by simp
next
  fix u v assume "u \<in> {v. 0 \<le> v \<and> v < n g}" "(u, v) \<in> edges g"
  then show "v \<in> {v. 0 \<le> v \<and> v < n g}"
    using valid_entriesD[OF assms(1), of u v] by (simp add: edges_def)
qed

lemma bfs_correct:
  assumes wf: "well_formed g" and ve: "valid_entries g"
    and st: "0 \<le> start" "start < n g"
    and room: "\<forall>k<nat (n g). int k < max_out \<longrightarrow> k < length cells"
  shows "\<exists>cells' fin.
           bfs g start (Own cells) max_out = Some (g, Own cells', int (length fin)) \<and>
           length cells' = length cells \<and> distinct fin \<and>
           set fin = reachable_from g start \<and> fin \<noteq> [] \<and> hd fin = start \<and>
           (\<forall>k<length fin. int k < max_out \<longrightarrow> cells' ! k = fin ! k)"
proof -
  define visited1 where "visited1 = (replicate (nat (n g)) (0::int))[nat start := 1]"
  define q0 where "q0 = queue_create (n g + 5)"
  from wf have len: "length (vertices g) = MAX_VERTICES" and cnt: "n g \<le> int MAX_VERTICES"
    by (simp_all add: well_formed_def)
  from st have "q_tail q0 < length (q_data q0)" by (simp add: q0_def queue_create_def)
  from queue_push_queued[OF this, of start] obtain q1 where
    push: "queue_push q0 start = Some q1" and q1: "queued q1 = queued q0 @ [start]"
    "q_head q1 = q_head q0" "length (q_data q1) = length (q_data q0)" "q_tail q1 = q_tail q0 + 1"
    by blast
  have q0: "queued q0 = []" "q_head q0 = 0" "q_tail q0 = 0" "length (q_data q0) = nat (n g + 5)"
    by (simp_all add: q0_def queue_create_def queued_def)
  from q1 q0 have qs: "queued q1 = [start]" "q_head q1 = 0" "q_tail q1 = 1"
    "length (q_data q1) = nat (n g + 5)"
    by simp_all
  have mk: "marked g visited1 = {start}"
    unfolding visited1_def using marked_mark[OF st, of "replicate (nat (n g)) 0"]
    by (simp add: marked_none)
  have lv: "length visited1 = nat (n g)" by (simp add: visited1_def)
  from st have ar: "nat (n g) \<le> nat (n g + 5)" "Suc 0 \<le> nat (n g + 5)" by arith+
  have inv: "bfs_inv g start visited1 q1"
    using ar by (simp add: bfs_inv_def qs mk lv reachable_start)
  from bfs_loop_correct[OF len cnt ve room inv, of 0] qs obtain cells' rest where r:
    "bfs_loop g visited1 q1 0 (Own cells) max_out = Some (g, Own cells', 1 + length rest)"
    "length cells' = length cells" "distinct ([start] @ rest)"
    "set ([start] @ rest) = reachable_from g start"
    "\<forall>k<1 + length rest. int k < max_out \<longrightarrow> cells' ! k = ([start] @ rest) ! k"
    by auto
  from st push r(1) have "bfs g start (Own cells) max_out
      = Some (g, Own cells', int (length (start # rest)))"
    by (simp add: bfs_def Let_def visited1_def[symmetric] q0_def[symmetric])
  with r(2-5) show ?thesis
    by (intro exI[of _ cells'] exI[of _ "start # rest"]) simp
qed

section \<open>The depth-first search\<close>

lemma dfs_correct_aux:
  "length (vertices g) = MAX_VERTICES \<Longrightarrow> n g \<le> int MAX_VERTICES \<Longrightarrow> valid_entries g \<Longrightarrow>
     dfs_ok g s \<Longrightarrow> 0 \<le> u \<Longrightarrow> u < n g \<Longrightarrow> d_visited s ! nat u = 0 \<Longrightarrow>
     u \<in> reachable_from g start \<Longrightarrow> marked g (d_visited s) \<subseteq> reachable_from g start \<Longrightarrow>
     \<exists>s' new. dfs_util g u s = Some (g, s') \<and> dfs_ok g s' \<and>
        recorded s' = recorded s @ u # new \<and>
        marked g (d_visited s') \<subseteq> reachable_from g start \<and>
        (\<forall>w\<in>set (u # new). \<forall>x. (w, x) \<in> edges g \<longrightarrow> x \<in> marked g (d_visited s'))"
  "length (vertices g) = MAX_VERTICES \<Longrightarrow> n g \<le> int MAX_VERTICES \<Longrightarrow> valid_entries g \<Longrightarrow>
     dfs_ok g s \<Longrightarrow> \<forall>v\<in>set vs. 0 \<le> v \<and> v < n g \<and> v \<in> reachable_from g start \<Longrightarrow>
     marked g (d_visited s) \<subseteq> reachable_from g start \<Longrightarrow>
     \<exists>s' new. dfs_neighbours g vs s = Some (g, s') \<and> dfs_ok g s' \<and>
        recorded s' = recorded s @ new \<and>
        marked g (d_visited s') \<subseteq> reachable_from g start \<and>
        set vs \<subseteq> marked g (d_visited s') \<and>
        (\<forall>w\<in>set new. \<forall>x. (w, x) \<in> edges g \<longrightarrow> x \<in> marked g (d_visited s'))"
proof (induction g u s and g vs s rule: dfs_util_dfs_neighbours.induct)
  case (1 g u s)
  note len = "1.prems"(1) and cnt = "1.prems"(2) and ve = "1.prems"(3) and ok = "1.prems"(4)
    and u = "1.prems"(5,6) and fresh = "1.prems"(7) and ur = "1.prems"(8) and mr = "1.prems"(9)
  from ok obtain cells where c: "d_order s = Own cells" "nat (n g) \<le> length cells"
    "d_pos s \<le> length cells"
    and lv: "length (d_visited s) = nat (n g)"
    and d: "distinct (recorded s)" and m: "set (recorded s) = marked g (d_visited s)"
    by (auto simp: dfs_ok_def)
  from c have rec: "recorded s = take (d_pos s) cells" by (simp add: recorded_def)
  from fresh m have nu: "u \<notin> set (recorded s)" by (simp add: marked_def)
  from m marked_bounds[of g "d_visited s"] have "set (recorded s) \<subseteq> {v. 0 \<le> v \<and> v < n g}"
    by simp
  from positions_room[OF d this u nu] c(3) have pos: "d_pos s < nat (n g)"
    by (simp add: rec)
  with c(2) have pl: "d_pos s < length cells" by simp
  define s1 where "s1 = s\<lparr>d_visited := (d_visited s)[nat u := 1],
                           d_order := Own (cells[d_pos s := u]), d_pos := d_pos s + 1\<rparr>"
  from pl have w: "write_out g (d_order s) (d_pos s) u = Some (g, Own (cells[d_pos s := u]))"
    by (simp add: write_out_def c(1))
  from u lv have guard: "\<not> (u < 0 \<or> length (d_visited s) \<le> nat u)" by simp
  from u len cnt have guard2: "\<not> length (vertices g) \<le> nat u" by simp
  from pl have rec1: "recorded s1 = recorded s @ [u]"
    by (simp add: recorded_def s1_def c(1) take_Suc_conv_app_nth)
  have v1: "d_visited s1 = (d_visited s)[nat u := 1]" by (simp add: s1_def)
  have ok1: "dfs_ok g s1"
    unfolding dfs_ok_def
  proof (intro conjI)
    show "length (d_visited s1) = nat (n g)" by (simp add: s1_def lv)
    show "\<exists>cells. d_order s1 = Own cells \<and> nat (n g) \<le> length cells \<and> d_pos s1 \<le> length cells"
      using c(2) pl by (simp add: s1_def)
    show "distinct (recorded s1)" using d nu by (simp add: rec1)
    show "set (recorded s1) = marked g (d_visited s1)"
      using m by (simp add: rec1 v1 marked_mark[OF u lv])
  qed
  have adj: "\<forall>v\<in>set (head (vertices g ! nat u)). 0 \<le> v \<and> v < n g \<and> v \<in> reachable_from g start"
  proof
    fix v assume v: "v \<in> set (head (vertices g ! nat u))"
    with u have "(u, v) \<in> edges g" by (simp add: edges_def)
    from reachable_step[OF ur this] valid_entriesD[OF ve u v]
    show "0 \<le> v \<and> v < n g \<and> v \<in> reachable_from g start" by simp
  qed
  have mr1: "marked g (d_visited s1) \<subseteq> reachable_from g start"
    using mr ur by (simp add: v1 marked_mark[OF u lv])
  from "1.IH"[OF guard w refl guard2 len cnt ve ok1[unfolded s1_def] adj mr1[unfolded s1_def]]
  obtain s' new where r: "dfs_neighbours g (head (vertices g ! nat u)) s1 = Some (g, s')"
    "dfs_ok g s'" "recorded s' = recorded s1 @ new"
    "marked g (d_visited s') \<subseteq> reachable_from g start"
    "set (head (vertices g ! nat u)) \<subseteq> marked g (d_visited s')"
    "\<forall>w\<in>set new. \<forall>x. (w, x) \<in> edges g \<longrightarrow> x \<in> marked g (d_visited s')"
    unfolding s1_def[symmetric] by blast
  have run: "dfs_util g u s = Some (g, s')"
    using guard guard2 w r(1) by (subst dfs_util.simps) (simp add: s1_def)
  have cl: "\<forall>w\<in>set (u # new). \<forall>x. (w, x) \<in> edges g \<longrightarrow> x \<in> marked g (d_visited s')"
  proof (intro ballI allI impI)
    fix w x assume w: "w \<in> set (u # new)" and e: "(w, x) \<in> edges g"
    show "x \<in> marked g (d_visited s')"
    proof (cases "w = u")
      case True
      with e have "x \<in> set (head (vertices g ! nat u))" by (simp add: edges_def)
      with r(5) show ?thesis by blast
    next
      case False
      with w r(6) e show ?thesis by auto
    qed
  qed
  from r(3) rec1 have "recorded s' = recorded s @ u # new" by simp
  with run r(2,4) cl show ?case
    by (intro exI[of _ s'] exI[of _ new]) simp
next
  case (2 g s)
  then show ?case by simp
next
  case (3 g v rest s)
  note len = "3.prems"(1) and cnt = "3.prems"(2) and ve = "3.prems"(3) and ok = "3.prems"(4)
    and vs = "3.prems"(5) and mr = "3.prems"(6)
  from ok have lv: "length (d_visited s) = nat (n g)"
    and m: "set (recorded s) = marked g (d_visited s)"
    by (auto simp: dfs_ok_def)
  from vs have v: "0 \<le> v" "v < n g" and vr: "v \<in> reachable_from g start"
    and rest: "\<forall>v\<in>set rest. 0 \<le> v \<and> v < n g \<and> v \<in> reachable_from g start"
    by simp_all
  from v lv have guard: "\<not> (v < 0 \<or> length (d_visited s) \<le> nat v)" by simp
  show ?case
  proof (cases "d_visited s ! nat v = 0")
    case True
    from "3.IH"(1)[OF guard True len cnt ve ok v True vr mr]
    obtain s1 new1 where a: "dfs_util g v s = Some (g, s1)" "dfs_ok g s1"
      "recorded s1 = recorded s @ v # new1"
      "marked g (d_visited s1) \<subseteq> reachable_from g start"
      "\<forall>w\<in>set (v # new1). \<forall>x. (w, x) \<in> edges g \<longrightarrow> x \<in> marked g (d_visited s1)"
      by blast
    from "3.IH"(2)[OF guard True a(1) refl len cnt ve a(2) rest a(4)]
    obtain s' new2 where b: "dfs_neighbours g rest s1 = Some (g, s')" "dfs_ok g s'"
      "recorded s' = recorded s1 @ new2"
      "marked g (d_visited s') \<subseteq> reachable_from g start"
      "set rest \<subseteq> marked g (d_visited s')"
      "\<forall>w\<in>set new2. \<forall>x. (w, x) \<in> edges g \<longrightarrow> x \<in> marked g (d_visited s')"
      by blast
    from a(2) b(2) have m1: "set (recorded s1) = marked g (d_visited s1)"
      and m': "set (recorded s') = marked g (d_visited s')"
      by (auto simp: dfs_ok_def)
    from b(3) m1 m' have mono: "marked g (d_visited s1) \<subseteq> marked g (d_visited s')" by auto
    from a(3) m1 have "v \<in> marked g (d_visited s1)" by auto
    with mono b(5) have sub: "set (v # rest) \<subseteq> marked g (d_visited s')" by auto
    from a(5) b(6) mono
    have cl: "\<forall>w\<in>set (v # new1 @ new2). \<forall>x. (w, x) \<in> edges g \<longrightarrow> x \<in> marked g (d_visited s')"
      by (metis UnE set_append set_ConsD list.set_intros subsetD append_Cons)
    from guard True a(1) b(1) have run: "dfs_neighbours g (v # rest) s = Some (g, s')" by simp
    from a(3) b(3) have "recorded s' = recorded s @ (v # new1 @ new2)" by simp
    with run b(2,4) sub cl show ?thesis
      by (intro exI[of _ s'] exI[of _ "v # new1 @ new2"] conjI) assumption+
  next
    case False
    from "3.IH"(3)[OF guard False len cnt ve ok rest mr]
    obtain s' new where b: "dfs_neighbours g rest s = Some (g, s')" "dfs_ok g s'"
      "recorded s' = recorded s @ new"
      "marked g (d_visited s') \<subseteq> reachable_from g start"
      "set rest \<subseteq> marked g (d_visited s')"
      "\<forall>w\<in>set new. \<forall>x. (w, x) \<in> edges g \<longrightarrow> x \<in> marked g (d_visited s')"
      by blast
    from b(2) have m': "set (recorded s') = marked g (d_visited s')" by (auto simp: dfs_ok_def)
    from False v have "v \<in> marked g (d_visited s)" by (simp add: marked_def)
    with m m' b(3) have "v \<in> marked g (d_visited s')" by auto
    with b(5) have sub: "set (v # rest) \<subseteq> marked g (d_visited s')" by simp
    from guard False b(1) have run: "dfs_neighbours g (v # rest) s = Some (g, s')" by simp
    with b(2,3,4,6) sub show ?thesis
      by (intro exI[of _ s'] exI[of _ new] conjI) assumption+
  qed
qed

lemma dfs_correct:
  assumes wf: "well_formed g" and ve: "valid_entries g"
    and st: "0 \<le> start" "start < n g"
    and room: "nat (n g) \<le> length cells"
  shows "\<exists>cells' fin.
           dfs g start (Own cells) max_out = Some (g, Own cells', int (length fin)) \<and>
           take (length fin) cells' = fin \<and> distinct fin \<and>
           set fin = reachable_from g start \<and> fin \<noteq> [] \<and> hd fin = start"
proof -
  define s0 where "s0 = \<lparr>d_visited = replicate (nat (n g)) (0::int), d_order = Own cells, d_pos = 0\<rparr>"
  from wf have len: "length (vertices g) = MAX_VERTICES" and cnt: "n g \<le> int MAX_VERTICES"
    by (simp_all add: well_formed_def)
  have r0: "recorded s0 = []" by (simp add: recorded_def s0_def)
  have v0: "d_visited s0 = replicate (nat (n g)) 0" by (simp add: s0_def)
  have ok0: "dfs_ok g s0"
    using room by (simp add: dfs_ok_def r0 v0 marked_none) (simp add: s0_def)
  from st have fresh: "d_visited s0 ! nat start = 0" by (simp add: v0)
  have mr: "marked g (d_visited s0) \<subseteq> reachable_from g start" by (simp add: v0 marked_none)
  from dfs_correct_aux(1)[OF len cnt ve ok0 st fresh reachable_start mr]
  obtain s' new where r: "dfs_util g start s0 = Some (g, s')" "dfs_ok g s'"
    "recorded s' = recorded s0 @ start # new"
    "marked g (d_visited s') \<subseteq> reachable_from g start"
    "\<forall>w\<in>set (start # new). \<forall>x. (w, x) \<in> edges g \<longrightarrow> x \<in> marked g (d_visited s')"
    by blast
  define fin where "fin = start # new"
  from r(3) have rf: "recorded s' = fin" by (simp add: r0 fin_def)
  from r(2) obtain cells' where c: "d_order s' = Own cells'" "d_pos s' \<le> length cells'"
    and d: "distinct (recorded s')" and m: "set (recorded s') = marked g (d_visited s')"
    by (auto simp: dfs_ok_def)
  from c have tk: "take (d_pos s') cells' = fin" by (simp add: recorded_def rf[symmetric])
  with c(2) have lf: "length fin = d_pos s'" by (metis length_take min.absorb2)
  have "reachable_from g start \<subseteq> set fin"
  proof (rule reachable_least)
    show "start \<in> set fin" by (simp add: fin_def)
  next
    fix u v assume "u \<in> set fin" "(u, v) \<in> edges g"
    with r(5) m show "v \<in> set fin" by (simp add: rf fin_def[symmetric])
  qed
  with r(4) m have eq: "set fin = reachable_from g start" by (simp add: rf)
  from st r(1) have "dfs g start (Own cells) max_out = Some (g, Own cells', int (length fin))"
    by (simp add: dfs_def Let_def s0_def[symmetric] c(1) lf)
  moreover have "take (length fin) cells' = fin" by (simp add: lf tk)
  moreover from d have "distinct fin" by (simp add: rf)
  ultimately show ?thesis using eq
    by (intro exI[of _ cells'] exI[of _ fin]) (simp add: fin_def)
qed

section \<open>What the traversals return\<close>

text \<open>
  Every graph that a sequence of operations builds is well formed and has only valid
  positions in its adjacency lists, so the results of this section apply to it.
\<close>

lemma run_valid_entries: "well_formed (run ops)" "valid_entries (run ops)"
proof -
  from run_inv[of ops] show "well_formed (run ops)" by (simp add: graph_inv_def)
  from run_inv[of ops] have "lists_ok (run ops)" by (simp add: graph_inv_def)
  then show "valid_entries (run ops)" by (auto simp: valid_entries_def lists_ok_def)
qed

text \<open>
  C3. Take a well-formed graph whose adjacency entries are all valid positions (symmetry
  of the lists is not needed), a start position in range, and an array of the caller's
  own with at least as many cells as the graph has vertices, \<open>max_out\<close> being at least
  that count too, as in \<open>main\<close>, which passes \<open>MAX_VERTICES\<close> for both. Then \<open>bfs\<close> and \<open>dfs\<close>
  each return, with the graph unchanged and a count \<open>c\<close>, and the first \<open>c\<close> cells of the
  array hold each position that can be reached from \<open>start\<close> exactly once and no other
  position; the first cell holds \<open>start\<close>. Cycles make no difference: the functions are
  total, and the result is \<open>Some\<close>, so no access left its array.
\<close>

theorem traversals_visit_reachable:
  assumes "well_formed g" and "valid_entries g" and "0 \<le> start" and "start < n g"
    and "nat (n g) \<le> length cells" and "n g \<le> max_out"
  shows "(\<exists>cells' c. bfs g start (Own cells) max_out = Some (g, Own cells', int c) \<and>
            distinct (take c cells') \<and> set (take c cells') = reachable_from g start \<and>
            0 < c \<and> cells' ! 0 = start) \<and>
         (\<exists>cells' c. dfs g start (Own cells) max_out = Some (g, Own cells', int c) \<and>
            distinct (take c cells') \<and> set (take c cells') = reachable_from g start \<and>
            0 < c \<and> cells' ! 0 = start)"
proof
  from assms(5) have room: "\<forall>k<nat (n g). int k < max_out \<longrightarrow> k < length cells" by simp
  from bfs_correct[OF assms(1-4) room] obtain cells' fin where r:
    "bfs g start (Own cells) max_out = Some (g, Own cells', int (length fin))"
    "length cells' = length cells" "distinct fin" "set fin = reachable_from g start"
    "fin \<noteq> []" "hd fin = start"
    "\<forall>k<length fin. int k < max_out \<longrightarrow> cells' ! k = fin ! k"
    by blast
  from reachable_bounds[OF assms(2-4)] r(4) have "set fin \<subseteq> {v. 0 \<le> v \<and> v < n g}" by simp
  from positions_bound[OF r(3) this] r(5) have lf: "length fin \<le> nat (n g)" by simp
  with assms(6) r(7) have "\<forall>k<length fin. cells' ! k = fin ! k" by auto
  with lf assms(5) r(2) have tk: "take (length fin) cells' = fin"
    by (intro nth_equalityI) simp_all
  from r(5,6) tk have "cells' ! 0 = start" "0 < length fin"
    by (metis hd_conv_nth length_greater_0_conv nth_take, simp)
  with r(1,3,4) tk
  show "\<exists>cells' c. bfs g start (Own cells) max_out = Some (g, Own cells', int c) \<and>
            distinct (take c cells') \<and> set (take c cells') = reachable_from g start \<and>
            0 < c \<and> cells' ! 0 = start"
    by (intro exI[of _ cells'] exI[of _ "length fin"]) simp
next
  from dfs_correct[OF assms(1-5), of max_out] obtain cells' fin where r:
    "dfs g start (Own cells) max_out = Some (g, Own cells', int (length fin))"
    "take (length fin) cells' = fin" "distinct fin" "set fin = reachable_from g start"
    "fin \<noteq> []" "hd fin = start"
    by blast
  from r(5,6,2) have "cells' ! 0 = start" "0 < length fin"
    by (metis hd_conv_nth length_greater_0_conv nth_take, simp)
  with r(1-4)
  show "\<exists>cells' c. dfs g start (Own cells) max_out = Some (g, Own cells', int c) \<and>
            distinct (take c cells') \<and> set (take c cells') = reachable_from g start \<and>
            0 < c \<and> cells' ! 0 = start"
    by (intro exI[of _ cells'] exI[of _ "length fin"]) simp
qed

theorem traversals_visit_reachable_witness:
  "well_formed triangle_graph \<and> valid_entries triangle_graph \<and> n triangle_graph = 4 \<and>
   map head (take 4 (vertices triangle_graph)) = [[2, 1], [2, 0], [0, 1], []] \<and>
   bfs triangle_graph 0 (Own (replicate 20 0)) 20
     = Some (triangle_graph, Own ([0, 2, 1] @ replicate 17 0), 3) \<and>
   dfs triangle_graph 0 (Own (replicate 20 0)) 20
     = Some (triangle_graph, Own ([0, 2, 1] @ replicate 17 0), 3) \<and>
   reachable_from triangle_graph 0 = {0, 1, 2}"
proof -
  have h: "well_formed triangle_graph" "valid_entries triangle_graph" "n triangle_graph = 4"
    "map head (take 4 (vertices triangle_graph)) = [[2, 1], [2, 0], [0, 1], []]"
    by code_simp+
  have b: "bfs triangle_graph 0 (Own (replicate 20 0)) 20
     = Some (triangle_graph, Own ([0, 2, 1] @ replicate 17 0), 3)"
    by code_simp
  have d: "dfs triangle_graph 0 (Own (replicate 20 0)) 20
     = Some (triangle_graph, Own ([0, 2, 1] @ replicate 17 0), 3)"
    by code_simp
  from traversals_visit_reachable[of triangle_graph 0 "replicate 20 0" 20] h b
  have "set (take 3 ([0, 2, 1] @ replicate 17 (0::int))) = reachable_from triangle_graph 0"
    by auto
  then have "reachable_from triangle_graph 0 = {0, 1, 2}" by auto
  with h b d show ?thesis by simp
qed

text \<open>
  C9, as amended. \<open>find_vertex_index\<close> leaves every graph as it is. On a well-formed
  graph whose adjacency entries are valid positions, \<open>bfs\<close> and \<open>dfs\<close> return from every
  start, in range or not, with the graph they were given, provided the order is written
  to an array of the caller's own that is long enough: for \<open>bfs\<close> at least \<open>max_out\<close>
  cells or at least as many cells as the graph has vertices, for \<open>dfs\<close>, which ignores
  \<open>max_out\<close>, at least as many cells as the graph has vertices.
\<close>

theorem queries_leave_graph:
  "fst (find_vertex_index g nm) = g \<and>
   (well_formed g \<and> valid_entries g \<and>
      (max_out \<le> int (length cells) \<or> nat (n g) \<le> length cells) \<longrightarrow>
      (\<exists>cells' c. bfs g start (Own cells) max_out = Some (g, Own cells', c))) \<and>
   (well_formed g \<and> valid_entries g \<and> nat (n g) \<le> length cells2 \<longrightarrow>
      (\<exists>cells' c. dfs g start2 (Own cells2) max_out2 = Some (g, Own cells', c)))"
proof (intro conjI impI)
  show "fst (find_vertex_index g nm) = g" by (simp add: find_vertex_index_def)
next
  assume a: "well_formed g \<and> valid_entries g \<and>
      (max_out \<le> int (length cells) \<or> nat (n g) \<le> length cells)"
  show "\<exists>cells' c. bfs g start (Own cells) max_out = Some (g, Own cells', c)"
  proof (cases "0 \<le> start \<and> start < n g")
    case True
    from a have room: "\<forall>k<nat (n g). int k < max_out \<longrightarrow> k < length cells" by auto
    from bfs_correct[OF _ _ _ _ room, of start] a True show ?thesis by blast
  next
    case False
    then show ?thesis by (auto simp: bfs_def)
  qed
next
  assume a: "well_formed g \<and> valid_entries g \<and> nat (n g) \<le> length cells2"
  show "\<exists>cells' c. dfs g start2 (Own cells2) max_out2 = Some (g, Own cells', c)"
  proof (cases "0 \<le> start2 \<and> start2 < n g")
    case True
    from dfs_correct[of g start2 cells2 max_out2] a True show ?thesis by blast
  next
    case False
    then show ?thesis by (auto simp: dfs_def)
  qed
qed

theorem queries_leave_graph_witness:
  "well_formed friends_graph \<and> valid_entries friends_graph \<and> n friends_graph = 3 \<and>
   fst (find_vertex_index friends_graph ''Bob'') = friends_graph \<and>
   (\<exists>cells' c. bfs friends_graph 0 (Own (replicate 2 0)) 2 = Some (friends_graph, Own cells', c)) \<and>
   (\<exists>cells' c. dfs friends_graph 1 (Own (replicate 3 0)) 0 = Some (friends_graph, Own cells', c))"
proof -
  have h: "well_formed friends_graph" "valid_entries friends_graph" "n friends_graph = 3"
    by code_simp+
  from queries_leave_graph[of friends_graph "''Bob''" 2 "replicate 2 0" 0 "replicate 3 0" 1 0] h
  show ?thesis by simp
qed

text \<open>
  The claim C9 as stated fails when the array handed to \<open>bfs\<close> is part of the graph:
  the call \<open>bfs(&g, 0, g.adjMatrix[0], 20)\<close> on the graph of Alice, Bob and Carol writes
  the order 0, 2, 1 over row 0 of the matrix, which held 0, 1, 1.
\<close>

theorem bfs_into_matrix_counterexample:
  "bfs friends_graph 0 (MatrixRow 0) 20
     = Some (friends_graph\<lparr>adjMatrix := (adjMatrix friends_graph)[0 := [0, 2, 1] @ replicate 17 0]\<rparr>,
             MatrixRow 0, 3) \<and>
   adjMatrix friends_graph ! 0 = [0, 1, 1] @ replicate 17 0 \<and>
   friends_graph\<lparr>adjMatrix := (adjMatrix friends_graph)[0 := [0, 2, 1] @ replicate 17 0]\<rparr>
     \<noteq> friends_graph"
  by code_simp

end
